theory Spec2Isabelle
  imports Main "HOL-Library.Word" "HOL-Library.Multiset" "HOL-Library.Sublist"
begin

unbundle bit_operations_syntax

section \<open>Data model\<close>

text \<open>
  A sample is an \<^verbatim>\<open>int16_t\<close>. Keys of a \<^verbatim>\<open>std::map<int16_t, V>\<close> are ordered as signed
  numbers, which is \<open>sint a < sint b\<close> on 16-bit words. The sample \<open>-1\<close> is the word
  \<open>0xFFFF\<close>.
\<close>

type_synonym sample = "16 word"

text \<open>
  Everything that either program can do besides returning: \<^verbatim>\<open>std::map::at\<close> throws
  \<^verbatim>\<open>std::out_of_range\<close> for a missing key (nothing catches it), \<^verbatim>\<open>top()\<close> of an empty
  \<^verbatim>\<open>std::priority_queue\<close> reads the front of an empty vector, and the decoder's walk can
  follow a null child pointer.
\<close>

datatype error = OutOfRange | TopOfEmptyQueue | NullDereference

subsection \<open>\<^verbatim>\<open>std::map<int16_t, V>\<close>\<close>

text \<open>
  A map is its sequence of entries in iteration order: ascending signed key, no key twice.
  \<open>map_of\<close> is the lookup; \<open>map_assign\<close> is \<^verbatim>\<open>m[k] = v\<close>.
\<close>

type_synonym 'v smap = "(sample \<times> 'v) list"

fun map_assign :: "sample \<Rightarrow> 'v \<Rightarrow> 'v smap \<Rightarrow> 'v smap" where
  "map_assign k v [] = [(k, v)]"
| "map_assign k v ((k', v') # m) =
     (if k = k' then (k, v) # m
      else if sint k < sint k' then (k, v) # (k', v') # m
      else (k', v') # map_assign k v m)"

definition map_at :: "'v smap \<Rightarrow> sample \<Rightarrow> error + 'v" where
  "map_at m k = (case map_of m k of None \<Rightarrow> Inl OutOfRange | Some v \<Rightarrow> Inr v)"

section \<open>The encoder (encoder.cpp)\<close>

subsection \<open>calculateFrequencies\<close>

text \<open>
  \<^verbatim>\<open>frequencies[sample]++\<close>: a missing key is inserted with the value 0 first. The
  counters are \<^verbatim>\<open>int\<close>; the sample vector has \<^verbatim>\<open>data_size / 2\<close> elements with
  \<^verbatim>\<open>data_size\<close> a \<^verbatim>\<open>uint32_t\<close>, so no counter and no sum of counters exceeds \<open>2^31 - 1\<close>
  and the model uses unbounded integers.
\<close>

definition increment :: "sample \<Rightarrow> int smap \<Rightarrow> int smap" where
  "increment s m = map_assign s ((case map_of m s of None \<Rightarrow> 0 | Some c \<Rightarrow> c) + 1) m"

definition calculateFrequencies :: "sample list \<Rightarrow> int smap" where
  "calculateFrequencies audioData = foldl (\<lambda>frequencies s. increment s frequencies) [] audioData"

subsection \<open>HuffmanNode and the priority queue\<close>

text \<open>
  A \<^verbatim>\<open>HuffmanNode*\<close> is either \<^verbatim>\<open>nullptr\<close> or a node owning its two children. The
  constructor sets both children to null; \<open>buildHuffmanTree\<close> gives the sample \<open>-1\<close> to
  every node it combines.
\<close>

datatype HuffmanNode =
  Null
| Node (sample: sample) (frequency: int) (left: HuffmanNode) (right: HuffmanNode)

definition Compare :: "HuffmanNode \<Rightarrow> HuffmanNode \<Rightarrow> bool" where
  "Compare l r = (frequency l > frequency r)"

text \<open>
  \<^verbatim>\<open>std::priority_queue<HuffmanNode*, std::vector<HuffmanNode*>, Compare>\<close> is the vector
  with \<^verbatim>\<open>std::push_heap\<close> and \<^verbatim>\<open>std::pop_heap\<close>, modelled as libstdc++ implements them.
  libstdc++ keeps the moving value in a temporary and shifts elements into the hole; the
  model keeps the value in the hole and swaps, which gives the same vector after each call.
\<close>

definition swap :: "'a list \<Rightarrow> nat \<Rightarrow> nat \<Rightarrow> 'a list" where
  "swap c i j = c[i := c ! j, j := c ! i]"

function push_heap_loop :: "HuffmanNode list \<Rightarrow> nat \<Rightarrow> nat \<Rightarrow> HuffmanNode list" where
  "push_heap_loop c holeIndex topIndex =
     (let parent = (holeIndex - 1) div 2 in
      if holeIndex > topIndex \<and> Compare (c ! parent) (c ! holeIndex)
      then push_heap_loop (swap c holeIndex parent) parent topIndex
      else c)"
  by pat_completeness auto
termination
  by (relation "measure (\<lambda>(c, holeIndex, topIndex). holeIndex)") auto

declare push_heap_loop.simps [simp del]

function adjust_heap_down :: "HuffmanNode list \<Rightarrow> nat \<Rightarrow> nat \<Rightarrow> HuffmanNode list \<times> nat" where
  "adjust_heap_down c secondChild len =
     (if secondChild < (len - 1) div 2 then
        (let sc = 2 * (secondChild + 1);
             sc' = (if Compare (c ! sc) (c ! (sc - 1)) then sc - 1 else sc)
         in adjust_heap_down (swap c secondChild sc') sc' len)
      else (c, secondChild))"
  by pat_completeness auto
termination
  by (relation "measure (\<lambda>(c, secondChild, len). len - secondChild)") (auto simp: Let_def)

declare adjust_heap_down.simps [simp del]

definition adjust_heap :: "HuffmanNode list \<Rightarrow> nat \<Rightarrow> nat \<Rightarrow> HuffmanNode list" where
  "adjust_heap c holeIndex len =
     (let (c1, h1) = adjust_heap_down c holeIndex len;
          (c2, h2) = (if even len \<and> h1 = (len - 2) div 2
                      then (swap c1 h1 (2 * (h1 + 1) - 1), 2 * (h1 + 1) - 1)
                      else (c1, h1))
      in push_heap_loop c2 h2 holeIndex)"

definition pq_push :: "HuffmanNode \<Rightarrow> HuffmanNode list \<Rightarrow> HuffmanNode list" where
  "pq_push x c = push_heap_loop (c @ [x]) (length c) 0"

text \<open>
  \<^verbatim>\<open>pop()\<close> is only called on a non-empty queue (the loop runs while the size exceeds 1
  and pops twice).
\<close>

definition pq_pop :: "HuffmanNode list \<Rightarrow> HuffmanNode list" where
  "pq_pop c =
     (if length c > 1 then adjust_heap ((butlast c)[0 := last c]) 0 (length c - 1)
      else butlast c)"

definition pq_top :: "HuffmanNode list \<Rightarrow> error + HuffmanNode" where
  "pq_top c = (case c of [] \<Rightarrow> Inl TopOfEmptyQueue | x # _ \<Rightarrow> Inr x)"

lemma length_swap [simp]: "length (swap c i j) = length c"
  by (simp add: swap_def)

lemma length_push_heap_loop [simp]: "length (push_heap_loop c h t) = length c"
proof (induction c h t rule: push_heap_loop.induct)
  case (1 c h t)
  show ?case
    using "1.IH" by (subst push_heap_loop.simps) (simp add: Let_def)
qed

lemma length_adjust_heap_down [simp]: "length (fst (adjust_heap_down c h n)) = length c"
proof (induction c h n rule: adjust_heap_down.induct)
  case (1 c h n)
  show ?case
    using "1.IH" by (subst adjust_heap_down.simps) (simp add: Let_def)
qed

lemma length_adjust_heap [simp]: "length (adjust_heap c h n) = length c"
proof -
  obtain c1 h1 where a: "adjust_heap_down c h n = (c1, h1)"
    by (cases "adjust_heap_down c h n")
  have "length c1 = length c"
    using length_adjust_heap_down [of c h n] a by simp
  then show ?thesis
    by (simp add: adjust_heap_def a)
qed

lemma length_pq_push [simp]: "length (pq_push x c) = Suc (length c)"
  by (simp add: pq_push_def)

lemma length_pq_pop [simp]: "length (pq_pop c) = length c - 1"
  by (simp add: pq_pop_def)

subsection \<open>buildHuffmanTree\<close>

function build_loop :: "HuffmanNode list \<Rightarrow> HuffmanNode list" where
  "build_loop minHeap =
     (if length minHeap > 1 then
        (let left = hd minHeap;
             minHeap1 = pq_pop minHeap;
             right = hd minHeap1;
             minHeap2 = pq_pop minHeap1;
             combined = Node (- 1) (frequency left + frequency right) left right
         in build_loop (pq_push combined minHeap2))
      else minHeap)"
  by pat_completeness auto
termination
  by (relation "measure length") auto

declare build_loop.simps [simp del]

definition seed_heap :: "int smap \<Rightarrow> HuffmanNode list" where
  "seed_heap frequencies =
     foldl (\<lambda>minHeap (s, f). pq_push (Node s f Null Null) minHeap) [] frequencies"

definition buildHuffmanTree :: "int smap \<Rightarrow> error + HuffmanNode" where
  "buildHuffmanTree frequencies = pq_top (build_loop (seed_heap frequencies))"

subsection \<open>generateCodes and encodeAudioData\<close>

fun generateCodes :: "HuffmanNode \<Rightarrow> string \<Rightarrow> string smap \<Rightarrow> string smap" where
  "generateCodes Null str huffmanCodes = huffmanCodes"
| "generateCodes (Node s f l r) str huffmanCodes =
     (let huffmanCodes1 = (if s \<noteq> - 1 then map_assign s str huffmanCodes else huffmanCodes);
          huffmanCodes2 = generateCodes l (str @ ''0'') huffmanCodes1
      in generateCodes r (str @ ''1'') huffmanCodes2)"

fun encodeAudioData :: "sample list \<Rightarrow> string smap \<Rightarrow> error + string" where
  "encodeAudioData [] huffmanCodes = Inr []"
| "encodeAudioData (s # audioData) huffmanCodes =
     (case map_at huffmanCodes s of
        Inl e \<Rightarrow> Inl e
      | Inr code \<Rightarrow>
          (case encodeAudioData audioData huffmanCodes of
             Inl e \<Rightarrow> Inl e
           | Inr encodedData \<Rightarrow> Inr (code @ encodedData)))"

subsection \<open>saveEncodedFile\<close>

text \<open>
  The WAV header is carried through unread; it is an opaque block of bytes here. The
  compressed file is the sequence of fields that \<open>saveEncodedFile\<close> writes: the header,
  the number of codes as a \<^verbatim>\<open>uint32_t\<close>, the entries of the code table in map order, the
  number of encoded bits as a \<^verbatim>\<open>uint32_t\<close> (the conversion from \<^verbatim>\<open>size_t\<close> drops the
  high bits), and the packed bytes.
\<close>

type_synonym WavHeader = "8 word list"

record EncodedFile =
  file_header :: WavHeader
  file_huffmanCodeCount :: "32 word"
  file_codes :: "(sample \<times> string) list"
  file_encodedDataSize :: "32 word"
  file_data :: "8 word list"

text \<open>\<^verbatim>\<open>byte[i % 8] = encodedData[i] == '1'\<close> on a \<^verbatim>\<open>std::bitset<8>\<close>.\<close>

definition assign_bit :: "8 word \<Rightarrow> nat \<Rightarrow> bool \<Rightarrow> 8 word" where
  "assign_bit byte n b = (if b then set_bit n byte else unset_bit n byte)"

text \<open>
  The packing loop: \<open>i\<close> is the loop index, \<open>byte\<close> the bitset, \<open>out\<close> the bytes written
  so far. The test \<^verbatim>\<open>i == encodedData.size() - 1\<close> holds exactly at the last character.
\<close>

fun pack_loop :: "string \<Rightarrow> nat \<Rightarrow> 8 word \<Rightarrow> 8 word list \<Rightarrow> 8 word list" where
  "pack_loop [] i byte out = out"
| "pack_loop (ch # rest) i byte out =
     (let byte1 = assign_bit byte (i mod 8) (ch = CHR ''1'') in
      if i mod 8 = 7 \<or> rest = []
      then pack_loop rest (i + 1) 0 (out @ [byte1])
      else pack_loop rest (i + 1) byte1 out)"

definition packBits :: "string \<Rightarrow> 8 word list" where
  "packBits encodedData = pack_loop encodedData 0 0 []"

definition saveEncodedFile :: "WavHeader \<Rightarrow> string \<Rightarrow> string smap \<Rightarrow> EncodedFile" where
  "saveEncodedFile hdr encodedData huffmanCodes =
     \<lparr> file_header = hdr,
       file_huffmanCodeCount = of_nat (length huffmanCodes),
       file_codes = huffmanCodes,
       file_encodedDataSize = of_nat (length encodedData),
       file_data = packBits encodedData \<rparr>"

subsection \<open>main\<close>

text \<open>
  \<open>enc_main\<close> is the encoder's \<^verbatim>\<open>main\<close> after \<^verbatim>\<open>readWavFile\<close> has returned the header and
  the samples. \<open>enc_codes\<close> is the code table it computes on the way.
\<close>

definition enc_codes :: "sample list \<Rightarrow> error + string smap" where
  "enc_codes audioData =
     (case buildHuffmanTree (calculateFrequencies audioData) of
        Inl e \<Rightarrow> Inl e
      | Inr huffmanTree \<Rightarrow> Inr (generateCodes huffmanTree [] []))"

definition enc_main :: "WavHeader \<Rightarrow> sample list \<Rightarrow> error + EncodedFile" where
  "enc_main hdr audioData =
     (case enc_codes audioData of
        Inl e \<Rightarrow> Inl e
      | Inr huffmanCodes \<Rightarrow>
          (case encodeAudioData audioData huffmanCodes of
             Inl e \<Rightarrow> Inl e
           | Inr encodedData \<Rightarrow> Inr (saveEncodedFile hdr encodedData huffmanCodes)))"

section \<open>The decoder (decoder.cpp)\<close>

text \<open>
  The decoder's \<^verbatim>\<open>HuffmanNode\<close> has no frequency; its default constructor sets the sample
  to \<open>-1\<close>.
\<close>

datatype DecNode =
  DNull
| DNode (dsample: sample) (dleft: DecNode) (dright: DecNode)

definition new_node :: DecNode where
  "new_node = DNode (- 1) DNull DNull"

subsection \<open>readHuffmanCodes\<close>

text \<open>
  Reads as many entries as the count field says and assigns each into the map.

  The record \<open>EncodedFile\<close> stands for the byte stream that \<open>saveEncodedFile\<close> writes, in
  which the count field is the number of entries that follow it. Only such records are
  read here: on a stream whose count differs from the number of entries, the program reads
  the bytes that follow as entries or as the bit count, which a record of separate fields
  does not express. Every file that the statements below give to the decoder either comes
  from \<open>saveEncodedFile\<close> or has its count equal to the number of its entries.
\<close>

definition readHuffmanCodes :: "EncodedFile \<Rightarrow> string smap" where
  "readHuffmanCodes file =
     foldl (\<lambda>huffmanCodes (s, code). map_assign s code huffmanCodes) []
       (take (unat (file_huffmanCodeCount file)) (file_codes file))"

subsection \<open>buildHuffmanTree\<close>

text \<open>
  \<open>insert_path\<close> is the inner loop together with the assignment after it: it follows the
  code from \<open>currentNode\<close>, allocating a node wherever the child is null, and stores the
  sample in the node it ends at. \<open>currentNode\<close> is never null.
\<close>

definition child_or_new :: "DecNode \<Rightarrow> DecNode" where
  "child_or_new n = (if n = DNull then new_node else n)"

fun insert_path :: "string \<Rightarrow> sample \<Rightarrow> DecNode \<Rightarrow> DecNode" where
  "insert_path bits s DNull = DNull"
| "insert_path [] s (DNode x l r) = DNode s l r"
| "insert_path (b # bits) s (DNode x l r) =
     (if b = CHR ''0'' then DNode x (insert_path bits s (child_or_new l)) r
      else DNode x l (insert_path bits s (child_or_new r)))"

definition dec_buildHuffmanTree :: "string smap \<Rightarrow> DecNode" where
  "dec_buildHuffmanTree huffmanCodes =
     foldl (\<lambda>root (s, code). insert_path code s root) new_node huffmanCodes"

subsection \<open>decodeAudioData\<close>

text \<open>
  The walk. \<^verbatim>\<open>currentNode->left\<close> on a null \<open>currentNode\<close> and the leaf test on a null
  child are null dereferences. The result also carries the node the walk ends at, which
  \<open>decodeAudioData\<close> drops.
\<close>

fun decode_loop ::
  "string \<Rightarrow> DecNode \<Rightarrow> DecNode \<Rightarrow> sample list \<Rightarrow> error + (sample list \<times> DecNode)" where
  "decode_loop [] root currentNode audioData = Inr (audioData, currentNode)"
| "decode_loop (b # bits) root currentNode audioData =
     (case currentNode of
        DNull \<Rightarrow> Inl NullDereference
      | DNode x l r \<Rightarrow>
          (case (if b = CHR ''0'' then l else r) of
             DNull \<Rightarrow> Inl NullDereference
           | DNode x' l' r' \<Rightarrow>
               if l' = DNull \<and> r' = DNull
               then decode_loop bits root root (audioData @ [x'])
               else decode_loop bits root (DNode x' l' r') audioData))"

definition decodeAudioData :: "string \<Rightarrow> DecNode \<Rightarrow> error + sample list" where
  "decodeAudioData encodedData root =
     (case decode_loop encodedData root root [] of
        Inl e \<Rightarrow> Inl e
      | Inr (audioData, currentNode) \<Rightarrow> Inr audioData)"

subsection \<open>readEncodedData\<close>

text \<open>
  The outer loop runs \<open>encodedDataSize\<close> times and reads one byte each time; the inner loop
  appends bits only while fewer than \<open>encodedDataSize\<close> have been collected. A read past the
  end of the file fails and leaves \<open>c\<close> indeterminate: \<open>junk i\<close> is the value \<open>c\<close> then has in
  iteration \<open>i\<close>.
\<close>

function inner_loop :: "8 word \<Rightarrow> nat \<Rightarrow> nat \<Rightarrow> string \<Rightarrow> string" where
  "inner_loop byte j encodedDataSize encodedData =
     (if j < 8 \<and> length encodedData < encodedDataSize
      then inner_loop byte (j + 1) encodedDataSize
             (encodedData @ [if bit byte j then CHR ''1'' else CHR ''0''])
      else encodedData)"
  by pat_completeness auto
termination
  by (relation "measure (\<lambda>(byte, j, encodedDataSize, encodedData). 8 - j)") auto

declare inner_loop.simps [simp del]

fun outer_loop ::
  "(nat \<Rightarrow> 8 word) \<Rightarrow> 8 word list \<Rightarrow> nat \<Rightarrow> nat \<Rightarrow> nat \<Rightarrow> string \<Rightarrow> string" where
  "outer_loop junk bytes 0 i encodedDataSize encodedData = encodedData"
| "outer_loop junk bytes (Suc remaining) i encodedDataSize encodedData =
     (let c = (if i < length bytes then bytes ! i else junk i) in
      outer_loop junk bytes remaining (i + 1) encodedDataSize
        (inner_loop c 0 encodedDataSize encodedData))"

definition readEncodedData :: "(nat \<Rightarrow> 8 word) \<Rightarrow> 8 word list \<Rightarrow> 32 word \<Rightarrow> string" where
  "readEncodedData junk bytes encodedDataSize =
     outer_loop junk bytes (unat encodedDataSize) 0 (unat encodedDataSize) []"

text \<open>The case where every failed read leaves 0 in \<open>c\<close>, for running the model.\<close>

definition zero_junk :: "nat \<Rightarrow> 8 word" where
  "zero_junk i = 0"

subsection \<open>main\<close>

definition dec_main :: "(nat \<Rightarrow> 8 word) \<Rightarrow> EncodedFile \<Rightarrow> error + (WavHeader \<times> sample list)" where
  "dec_main junk file =
     (let huffmanCodes = readHuffmanCodes file;
          encodedData = readEncodedData junk (file_data file) (file_encodedDataSize file);
          huffmanTree = dec_buildHuffmanTree huffmanCodes
      in case decodeAudioData encodedData huffmanTree of
           Inl e \<Rightarrow> Inl e
         | Inr audioData \<Rightarrow> Inr (file_header file, audioData))"

section \<open>The encoder's nodes in memory\<close>

text \<open>
  The encoder once more, with the nodes where the program has them: each
  \<^verbatim>\<open>new HuffmanNode\<close> is a cell of the free store at an address, the priority queue is a
  vector of addresses, \<^verbatim>\<open>Compare\<close> and \<open>generateCodes\<close> read the cells through the
  addresses. Nothing is ever freed. The address that \<^verbatim>\<open>new\<close> returns is given by \<open>alloc\<close>,
  an arbitrary function of the addresses handed out so far, so that any sequence of
  distinct addresses is the behaviour of some \<open>alloc\<close>.

  \<open>deref\<close> is only applied to addresses that \<^verbatim>\<open>new\<close> returned. \<open>generateCodes\<close> follows
  pointers, so its recursion ends only if the cells form a tree: it is a partial function,
  and \<open>None\<close> stands for a run that does not return.
\<close>

type_synonym addr = nat

datatype cell =
  Cell (cell_sample: sample) (cell_frequency: int) (cell_left: "addr option") (cell_right: "addr option")

record memory =
  cells :: "addr \<Rightarrow> cell option"
  allocated :: "addr list"

definition empty_memory :: memory where
  "empty_memory = \<lparr>cells = (\<lambda>a. None), allocated = []\<rparr>"

definition deref :: "memory \<Rightarrow> addr \<Rightarrow> cell" where
  "deref m a = the (cells m a)"

definition new_HuffmanNode ::
  "(addr list \<Rightarrow> addr) \<Rightarrow> sample \<Rightarrow> int \<Rightarrow> memory \<Rightarrow> addr \<times> memory" where
  "new_HuffmanNode alloc s f m =
     (let a = alloc (allocated m)
      in (a, \<lparr>cells = (cells m)(a \<mapsto> Cell s f None None), allocated = a # allocated m\<rparr>))"

definition set_children :: "addr \<Rightarrow> addr option \<Rightarrow> addr option \<Rightarrow> memory \<Rightarrow> memory" where
  "set_children a l r m =
     m\<lparr>cells := (cells m)(a \<mapsto> Cell (cell_sample (deref m a)) (cell_frequency (deref m a)) l r)\<rparr>"

definition ptr_Compare :: "memory \<Rightarrow> addr \<Rightarrow> addr \<Rightarrow> bool" where
  "ptr_Compare m l r = (cell_frequency (deref m l) > cell_frequency (deref m r))"

function ptr_push_heap_loop :: "memory \<Rightarrow> addr list \<Rightarrow> nat \<Rightarrow> nat \<Rightarrow> addr list" where
  "ptr_push_heap_loop m c holeIndex topIndex =
     (let parent = (holeIndex - 1) div 2 in
      if holeIndex > topIndex \<and> ptr_Compare m (c ! parent) (c ! holeIndex)
      then ptr_push_heap_loop m (swap c holeIndex parent) parent topIndex
      else c)"
  by pat_completeness auto
termination
  by (relation "measure (\<lambda>(m, c, holeIndex, topIndex). holeIndex)") auto

declare ptr_push_heap_loop.simps [simp del]

function ptr_adjust_heap_down :: "memory \<Rightarrow> addr list \<Rightarrow> nat \<Rightarrow> nat \<Rightarrow> addr list \<times> nat" where
  "ptr_adjust_heap_down m c secondChild len =
     (if secondChild < (len - 1) div 2 then
        (let sc = 2 * (secondChild + 1);
             sc' = (if ptr_Compare m (c ! sc) (c ! (sc - 1)) then sc - 1 else sc)
         in ptr_adjust_heap_down m (swap c secondChild sc') sc' len)
      else (c, secondChild))"
  by pat_completeness auto
termination
  by (relation "measure (\<lambda>(m, c, secondChild, len). len - secondChild)") (auto simp: Let_def)

declare ptr_adjust_heap_down.simps [simp del]

definition ptr_adjust_heap :: "memory \<Rightarrow> addr list \<Rightarrow> nat \<Rightarrow> nat \<Rightarrow> addr list" where
  "ptr_adjust_heap m c holeIndex len =
     (let (c1, h1) = ptr_adjust_heap_down m c holeIndex len;
          (c2, h2) = (if even len \<and> h1 = (len - 2) div 2
                      then (swap c1 h1 (2 * (h1 + 1) - 1), 2 * (h1 + 1) - 1)
                      else (c1, h1))
      in ptr_push_heap_loop m c2 h2 holeIndex)"

definition ptr_pq_push :: "memory \<Rightarrow> addr \<Rightarrow> addr list \<Rightarrow> addr list" where
  "ptr_pq_push m x c = ptr_push_heap_loop m (c @ [x]) (length c) 0"

definition ptr_pq_pop :: "memory \<Rightarrow> addr list \<Rightarrow> addr list" where
  "ptr_pq_pop m c =
     (if length c > 1 then ptr_adjust_heap m ((butlast c)[0 := last c]) 0 (length c - 1)
      else butlast c)"

lemma length_ptr_push_heap_loop [simp]: "length (ptr_push_heap_loop m c h t) = length c"
proof (induction m c h t rule: ptr_push_heap_loop.induct)
  case (1 m c h t)
  show ?case
    using "1.IH" by (subst ptr_push_heap_loop.simps) (simp add: Let_def)
qed

lemma length_ptr_adjust_heap_down [simp]:
  "length (fst (ptr_adjust_heap_down m c h n)) = length c"
proof (induction m c h n rule: ptr_adjust_heap_down.induct)
  case (1 m c h n)
  show ?case
    using "1.IH" by (subst ptr_adjust_heap_down.simps) (simp add: Let_def)
qed

lemma length_ptr_adjust_heap [simp]: "length (ptr_adjust_heap m c h n) = length c"
proof -
  obtain c1 h1 where a: "ptr_adjust_heap_down m c h n = (c1, h1)"
    by (cases "ptr_adjust_heap_down m c h n")
  have "length c1 = length c"
    using length_ptr_adjust_heap_down [of m c h n] a by simp
  then show ?thesis
    by (simp add: ptr_adjust_heap_def a)
qed

lemma length_ptr_pq_push [simp]: "length (ptr_pq_push m x c) = Suc (length c)"
  by (simp add: ptr_pq_push_def)

lemma length_ptr_pq_pop [simp]: "length (ptr_pq_pop m c) = length c - 1"
  by (simp add: ptr_pq_pop_def)

function ptr_build_loop :: "(addr list \<Rightarrow> addr) \<Rightarrow> memory \<Rightarrow> addr list \<Rightarrow> memory \<times> addr list" where
  "ptr_build_loop alloc m minHeap =
     (if length minHeap > 1 then
        (let left = hd minHeap;
             minHeap1 = ptr_pq_pop m minHeap;
             right = hd minHeap1;
             minHeap2 = ptr_pq_pop m minHeap1;
             (combined, m1) = new_HuffmanNode alloc (- 1)
                (cell_frequency (deref m left) + cell_frequency (deref m right)) m;
             m2 = set_children combined (Some left) (Some right) m1
         in ptr_build_loop alloc m2 (ptr_pq_push m2 combined minHeap2))
      else (m, minHeap))"
  by pat_completeness auto
termination
  by (relation "measure (\<lambda>(alloc, m, minHeap). length minHeap)") (auto split: prod.splits)

declare ptr_build_loop.simps [simp del]

definition ptr_seed_heap :: "(addr list \<Rightarrow> addr) \<Rightarrow> int smap \<Rightarrow> memory \<times> addr list" where
  "ptr_seed_heap alloc frequencies =
     foldl (\<lambda>(m, minHeap) (s, f).
              (let (a, m1) = new_HuffmanNode alloc s f m in (m1, ptr_pq_push m1 a minHeap)))
       (empty_memory, []) frequencies"

definition ptr_buildHuffmanTree ::
  "(addr list \<Rightarrow> addr) \<Rightarrow> int smap \<Rightarrow> error + (memory \<times> addr)" where
  "ptr_buildHuffmanTree alloc frequencies =
     (let (m0, minHeap0) = ptr_seed_heap alloc frequencies;
          (m, minHeap) = ptr_build_loop alloc m0 minHeap0
      in case minHeap of [] \<Rightarrow> Inl TopOfEmptyQueue | root # _ \<Rightarrow> Inr (m, root))"

partial_function (option) ptr_generateCodes ::
  "memory \<Rightarrow> addr option \<Rightarrow> string \<Rightarrow> string smap \<Rightarrow> string smap option" where
  "ptr_generateCodes m root str huffmanCodes =
     (case root of
        None \<Rightarrow> Some huffmanCodes
      | Some a \<Rightarrow>
          (let huffmanCodes1 =
                 (if cell_sample (deref m a) \<noteq> - 1
                  then map_assign (cell_sample (deref m a)) str huffmanCodes else huffmanCodes)
           in Option.bind (ptr_generateCodes m (cell_left (deref m a)) (str @ ''0'') huffmanCodes1)
                (\<lambda>huffmanCodes2.
                   ptr_generateCodes m (cell_right (deref m a)) (str @ ''1'') huffmanCodes2)))"

declare ptr_generateCodes.simps [code]

definition ptr_enc_main ::
  "(addr list \<Rightarrow> addr) \<Rightarrow> WavHeader \<Rightarrow> sample list \<Rightarrow> (error + EncodedFile) option" where
  "ptr_enc_main alloc hdr audioData =
     (case ptr_buildHuffmanTree alloc (calculateFrequencies audioData) of
        Inl e \<Rightarrow> Some (Inl e)
      | Inr (m, huffmanTree) \<Rightarrow>
          (case ptr_generateCodes m (Some huffmanTree) [] [] of
             None \<Rightarrow> None
           | Some huffmanCodes \<Rightarrow>
               (case encodeAudioData audioData huffmanCodes of
                  Inl e \<Rightarrow> Some (Inl e)
                | Inr encodedData \<Rightarrow> Some (Inr (saveEncodedFile hdr encodedData huffmanCodes)))))"

text \<open>Two allocators, for running the model.\<close>

definition bump_allocator :: "addr list \<Rightarrow> addr" where
  "bump_allocator live = Suc (sum_list live)"

definition sparse_allocator :: "addr list \<Rightarrow> addr" where
  "sparse_allocator live = 3 * sum_list live + 16"

text \<open>
  \<open>repr m t p\<close>: the pointer \<open>p\<close> leads, in the memory \<open>m\<close>, to cells that form the tree \<open>t\<close>.
  \<open>queue_rel\<close> relates a queue of addresses to a queue of trees. A memory is \<open>tracked\<close>
  when every cell in use is in its list of handed-out addresses, and an allocator is
  \<open>fresh\<close> when it never returns an address it was told is in use.
\<close>

fun repr :: "memory \<Rightarrow> HuffmanNode \<Rightarrow> addr option \<Rightarrow> bool" where
  "repr m Null p = (p = None)"
| "repr m (Node s f l r) p =
     (case p of
        None \<Rightarrow> False
      | Some a \<Rightarrow>
          (case cells m a of
             None \<Rightarrow> False
           | Some c \<Rightarrow> cell_sample c = s \<and> cell_frequency c = f
                       \<and> repr m l (cell_left c) \<and> repr m r (cell_right c)))"

definition node_at :: "memory \<Rightarrow> addr \<Rightarrow> HuffmanNode \<Rightarrow> bool" where
  "node_at m a t = (t \<noteq> Null \<and> repr m t (Some a))"

definition queue_rel :: "memory \<Rightarrow> addr list \<Rightarrow> HuffmanNode list \<Rightarrow> bool" where
  "queue_rel m c ts = list_all2 (node_at m) c ts"

definition tracked :: "memory \<Rightarrow> bool" where
  "tracked m = (\<forall>a. cells m a \<noteq> None \<longrightarrow> a \<in> set (allocated m))"

definition fresh :: "(addr list \<Rightarrow> addr) \<Rightarrow> bool" where
  "fresh alloc = (\<forall>live. alloc live \<notin> set live)"

section \<open>Notions used in the statements and proofs\<close>

text \<open>
  Packed bytes as a bit sequence: \<open>unpack_all\<close> lists the bits of a byte sequence, bit 0
  of each byte first; \<open>byte_at\<close> is what the decoder's \<open>i\<close>-th read leaves in \<open>c\<close>.

  The decoder's tree: \<open>descend t p\<close> is the node reached from \<open>t\<close> along the characters of
  \<open>p\<close> (\<open>0\<close> to the left, anything else to the right), or null. A code table is
  \<open>decodable\<close> when it is a map (each key once) whose codes are non-empty strings of \<open>0\<close>
  and \<open>1\<close>, none a prefix of another. \<open>codewords tbl ks\<close> is the concatenation of the codes
  of the samples \<open>ks\<close>.

  The encoder's tree: \<open>leaves t\<close> are the samples at the nodes without children, left to
  right; a tree is \<open>proper\<close> when every node has no child at all or has the sample \<open>-1\<close>
  and two proper children; \<open>paths t str\<close> pairs each leaf with \<open>str\<close> followed by its path.
  \<open>smap_sorted\<close> is the order of the entries of a \<^verbatim>\<open>std::map\<close>, and \<open>assign_all\<close> assigns a
  list of entries one after the other.
\<close>

definition bits8 :: "8 word \<Rightarrow> bool list" where
  "bits8 byte = map (bit byte) [0..<8]"

definition unpack_all :: "8 word list \<Rightarrow> bool list" where
  "unpack_all bytes = concat (map bits8 bytes)"

definition bitchar :: "bool \<Rightarrow> char" where
  "bitchar b = (if b then CHR ''1'' else CHR ''0'')"

definition byte_at :: "(nat \<Rightarrow> 8 word) \<Rightarrow> 8 word list \<Rightarrow> nat \<Rightarrow> 8 word" where
  "byte_at junk bytes i = (if i < length bytes then bytes ! i else junk i)"

fun descend :: "DecNode \<Rightarrow> string \<Rightarrow> DecNode" where
  "descend n [] = n"
| "descend DNull (b # bits) = DNull"
| "descend (DNode x l r) (b # bits) = descend (if b = CHR ''0'' then l else r) bits"

definition is_leaf :: "DecNode \<Rightarrow> bool" where
  "is_leaf n = (case n of DNull \<Rightarrow> False | DNode x l r \<Rightarrow> l = DNull \<and> r = DNull)"

definition bitstring :: "string \<Rightarrow> bool" where
  "bitstring s = (set s \<subseteq> {CHR ''0'', CHR ''1''})"

definition prefix_free :: "string smap \<Rightarrow> bool" where
  "prefix_free tbl = (\<forall>(a, ca) \<in> set tbl. \<forall>(b, cb) \<in> set tbl. a \<noteq> b \<longrightarrow> \<not> prefix ca cb)"

definition insert_all :: "DecNode \<Rightarrow> string smap \<Rightarrow> DecNode" where
  "insert_all root huffmanCodes = foldl (\<lambda>root (s, code). insert_path code s root) root huffmanCodes"

definition decodable :: "string smap \<Rightarrow> bool" where
  "decodable tbl \<longleftrightarrow>
     distinct (map fst tbl) \<and> (\<forall>(s, c) \<in> set tbl. c \<noteq> [] \<and> bitstring c) \<and> prefix_free tbl"

definition codewords :: "string smap \<Rightarrow> sample list \<Rightarrow> string" where
  "codewords tbl ks = concat (map (\<lambda>k. the (map_of tbl k)) ks)"

fun leaves :: "HuffmanNode \<Rightarrow> sample list" where
  "leaves Null = []"
| "leaves (Node s f l r) = (if l = Null \<and> r = Null then [s] else leaves l @ leaves r)"

fun proper :: "HuffmanNode \<Rightarrow> bool" where
  "proper Null = False"
| "proper (Node s f l r) = ((l = Null \<and> r = Null) \<or> (s = - 1 \<and> proper l \<and> proper r))"

definition leaves_mset :: "HuffmanNode multiset \<Rightarrow> sample multiset" where
  "leaves_mset M = (\<Sum>t \<in># M. mset (leaves t))"

definition smap_sorted :: "'v smap \<Rightarrow> bool" where
  "smap_sorted m = sorted_wrt (\<lambda>a b. sint (fst a) < sint (fst b)) m"

fun paths :: "HuffmanNode \<Rightarrow> string \<Rightarrow> (sample \<times> string) list" where
  "paths Null str = []"
| "paths (Node s f l r) str =
     (if l = Null \<and> r = Null then [(s, str)]
      else paths l (str @ ''0'') @ paths r (str @ ''1''))"

definition assign_all :: "'v smap \<Rightarrow> (sample \<times> 'v) list \<Rightarrow> 'v smap" where
  "assign_all m entries = foldl (\<lambda>m (k, v). map_assign k v m) m entries"

section \<open>Basic facts about the encoder\<close>

lemma map_of_map_assign: "map_of (map_assign k v m) = (map_of m)(k \<mapsto> v)"
  by (induction m) (auto simp: fun_eq_iff)

lemma map_assign_not_Nil [simp]: "map_assign k v m \<noteq> []"
  by (cases m) (auto split: if_splits)

lemma generateCodes_minus_one:
  "map_of (generateCodes t str huffmanCodes) (- 1) = map_of huffmanCodes (- 1)"
  by (induction t arbitrary: str huffmanCodes) (simp_all add: Let_def map_of_map_assign)

lemma encodeAudioData_error: "encodeAudioData audioData huffmanCodes = Inl e \<Longrightarrow> e = OutOfRange"
  by (induction audioData arbitrary: e)
     (auto simp: map_at_def split: sum.splits option.splits)

lemma encodeAudioData_missing:
  "s \<in> set audioData \<Longrightarrow> map_of huffmanCodes s = None
   \<Longrightarrow> encodeAudioData audioData huffmanCodes = Inl OutOfRange"
proof (induction audioData)
  case Nil
  then show ?case by simp
next
  case (Cons x xs)
  show ?case
  proof (cases "map_of huffmanCodes x")
    case None
    then show ?thesis by (simp add: map_at_def)
  next
    case (Some code)
    with Cons.prems have "s \<in> set xs" by auto
    then have "encodeAudioData xs huffmanCodes = Inl OutOfRange"
      using Cons.IH Cons.prems(2) by simp
    then show ?thesis using Some by (simp add: map_at_def)
  qed
qed

lemma length_build_loop: "minHeap \<noteq> [] \<Longrightarrow> length (build_loop minHeap) = 1"
proof (induction minHeap rule: build_loop.induct)
  case (1 minHeap)
  show ?case
  proof (cases "length minHeap > 1")
    case True
    then have "length (build_loop minHeap) =
       length (build_loop (pq_push (Node (- 1) (frequency (hd minHeap) + frequency (hd (pq_pop minHeap))) (hd minHeap) (hd (pq_pop minHeap))) (pq_pop (pq_pop minHeap))))"
      by (subst build_loop.simps) (simp add: Let_def)
    also have "\<dots> = 1"
      by (rule "1.IH"[OF True refl refl refl refl refl]) (simp flip: length_greater_0_conv)
    finally show ?thesis .
  next
    case False
    with "1.prems" have "length minHeap = 1"
      by (cases minHeap) auto
    then show ?thesis
      by (subst build_loop.simps) simp
  qed
qed

lemma length_seed_heap: "length (seed_heap frequencies) = length frequencies"
proof -
  have "length (foldl (\<lambda>minHeap (s, f). pq_push (Node s f Null Null) minHeap) q frequencies)
        = length q + length frequencies" for q
    by (induction frequencies arbitrary: q) (auto split: prod.splits)
  then show ?thesis by (simp add: seed_heap_def)
qed

lemma buildHuffmanTree_returns:
  "frequencies \<noteq> [] \<Longrightarrow> \<exists>t. buildHuffmanTree frequencies = Inr t"
proof -
  assume "frequencies \<noteq> []"
  then have "seed_heap frequencies \<noteq> []"
    using length_seed_heap [of frequencies] by auto
  then have "length (build_loop (seed_heap frequencies)) = 1"
    by (rule length_build_loop)
  then show ?thesis
    by (cases "build_loop (seed_heap frequencies)") (auto simp: buildHuffmanTree_def pq_top_def)
qed

lemma calculateFrequencies_not_Nil:
  "audioData \<noteq> [] \<Longrightarrow> calculateFrequencies audioData \<noteq> []"
  by (cases audioData rule: rev_cases) (simp_all add: calculateFrequencies_def increment_def)

lemma enc_codes_returns:
  "audioData \<noteq> [] \<Longrightarrow> \<exists>t. buildHuffmanTree (calculateFrequencies audioData) = Inr t
     \<and> enc_codes audioData = Inr (generateCodes t [] [])"
  using buildHuffmanTree_returns [OF calculateFrequencies_not_Nil, of audioData]
  by (auto simp: enc_codes_def)

section \<open>Packed bytes as a bit sequence\<close>

text \<open>
  \<open>unpack_all\<close> lists the bits of a byte sequence, bit 0 of each byte first. Both
  \<open>pack_loop\<close> and \<open>readEncodedData\<close> are described through it.
\<close>

lemma length_bits8 [simp]: "length (bits8 byte) = 8"
  by (simp add: bits8_def)

lemma nth_bits8: "j < 8 \<Longrightarrow> bits8 byte ! j = bit byte j"
  by (simp add: bits8_def)

lemma length_unpack_all [simp]: "length (unpack_all bytes) = 8 * length bytes"
  by (induction bytes) (simp_all add: unpack_all_def)

lemma unpack_all_append [simp]: "unpack_all (xs @ ys) = unpack_all xs @ unpack_all ys"
  by (simp add: unpack_all_def)

lemma unpack_all_Cons: "unpack_all (b # bs) = bits8 b @ unpack_all bs"
  by (simp add: unpack_all_def)

lemma unpack_all_Nil [simp]: "unpack_all [] = []"
  by (simp add: unpack_all_def)

lemma unpack_all_single [simp]: "unpack_all [b] = bits8 b"
  by (simp add: unpack_all_def)

lemma nth_unpack_all:
  "i < 8 * length bytes \<Longrightarrow> unpack_all bytes ! i = bit (bytes ! (i div 8)) (i mod 8)"
proof (induction bytes arbitrary: i)
  case Nil
  then show ?case by simp
next
  case (Cons b bs)
  show ?case
  proof (cases "i < 8")
    case True
    then show ?thesis by (simp add: unpack_all_Cons nth_append nth_bits8)
  next
    case False
    then obtain k where k: "i = 8 + k" by (metis le_add_diff_inverse not_less)
    with Cons.prems have "k < 8 * length bs" by simp
    then have "unpack_all bs ! k = bit (bs ! (k div 8)) (k mod 8)" by (rule Cons.IH)
    moreover have "(8 + k) div 8 = Suc (k div 8)" "(8 + k) mod 8 = k mod 8"
      by simp_all
    ultimately show ?thesis using k by (simp add: unpack_all_Cons nth_append)
  qed
qed

lemma bits8_assign_bit:
  "k < 8 \<Longrightarrow> bits8 (assign_bit byte k b) = (bits8 byte)[k := b]"
  by (rule nth_equalityI)
     (auto simp: nth_bits8 assign_bit_def bit_set_bit_iff bit_unset_bit_iff nth_list_update)

lemma take_Suc_update:
  "k < length xs \<Longrightarrow> take (Suc k) (xs[k := b]) = take k xs @ [b]"
  by (simp add: take_Suc_conv_app_nth)

lemma pack_loop_bits:
  "s \<noteq> [] \<or> i mod 8 = 0 \<Longrightarrow>
   \<exists>pad. length pad < 8 \<and>
     unpack_all (pack_loop s i byte out)
       = unpack_all out @ take (i mod 8) (bits8 byte) @ map (\<lambda>c. c = CHR ''1'') s @ pad"
proof (induction s arbitrary: i byte out)
  case Nil
  then show ?case by simp
next
  case (Cons ch rest)
  let ?k = "i mod 8"
  let ?b1 = "assign_bit byte ?k (ch = CHR ''1'')"
  have k8: "?k < 8" by simp
  have upd: "bits8 ?b1 = (bits8 byte)[?k := (ch = CHR ''1'')]"
    using k8 by (rule bits8_assign_bit)
  have tk: "take (Suc ?k) (bits8 ?b1) = take ?k (bits8 byte) @ [ch = CHR ''1'']"
    unfolding upd using k8 by (simp add: take_Suc_update)
  show ?case
  proof (cases "rest = []")
    case True
    have "bits8 ?b1 = take (Suc ?k) (bits8 ?b1) @ drop (Suc ?k) (bits8 ?b1)"
      by simp
    then have "bits8 ?b1 = take ?k (bits8 byte) @ [ch = CHR ''1''] @ drop (Suc ?k) (bits8 ?b1)"
      using tk by simp
    moreover have "length (drop (Suc ?k) (bits8 ?b1)) < 8"
      by simp
    ultimately show ?thesis
      using True by (intro exI [of _ "drop (Suc ?k) (bits8 ?b1)"]) simp
  next
    case False
    show ?thesis
    proof (cases "?k = 7")
      case True
      then have nxt: "(i + 1) mod 8 = 0"
        by (simp add: mod_Suc)
      obtain pad where pad: "length pad < 8"
        "unpack_all (pack_loop rest (i + 1) 0 (out @ [?b1]))
           = unpack_all (out @ [?b1]) @ take ((i + 1) mod 8) (bits8 0)
             @ map (\<lambda>c. c = CHR ''1'') rest @ pad"
        using Cons.IH [of "i + 1" 0 "out @ [?b1]"] nxt by auto
      have "bits8 ?b1 = take (Suc ?k) (bits8 ?b1)"
        using True by simp
      then have "bits8 ?b1 = take ?k (bits8 byte) @ [ch = CHR ''1'']"
        using tk by simp
      then show ?thesis
        using pad True nxt by (intro exI [of _ pad]) simp
    next
      case k7: False
      then have nxt: "(i + 1) mod 8 = Suc ?k"
        by (simp add: mod_Suc)
      obtain pad where pad: "length pad < 8"
        "unpack_all (pack_loop rest (i + 1) ?b1 out)
           = unpack_all out @ take ((i + 1) mod 8) (bits8 ?b1)
             @ map (\<lambda>c. c = CHR ''1'') rest @ pad"
        using Cons.IH [of "i + 1" ?b1 out] False by auto
      show ?thesis
        using pad k7 False nxt tk by (intro exI [of _ pad]) simp
    qed
  qed
qed

lemma packBits_bits:
  "\<exists>pad. length pad < 8 \<and>
     unpack_all (packBits s) = map (\<lambda>c. c = CHR ''1'') s @ pad"
  using pack_loop_bits [of s 0 0 "[]"] by (simp add: packBits_def)

lemma length_packBits: "length (packBits s) = (length s + 7) div 8"
proof -
  obtain pad where pad: "length pad < 8"
    "unpack_all (packBits s) = map (\<lambda>c. c = CHR ''1'') s @ pad"
    using packBits_bits by blast
  have "length (unpack_all (packBits s)) = length s + length pad"
    using pad(2) by simp
  then have "length s + 7 = 8 * length (packBits s) + (7 - length pad)"
    using pad(1) by simp
  moreover have "(8 * length (packBits s) + (7 - length pad)) div 8 = length (packBits s)"
    by simp
  ultimately show ?thesis by simp
qed

lemma packBits_nth:
  assumes "i < length s"
  shows "bit (packBits s ! (i div 8)) (i mod 8) = (s ! i = CHR ''1'')"
proof -
  obtain pad where pad: "length pad < 8"
    "unpack_all (packBits s) = map (\<lambda>c. c = CHR ''1'') s @ pad"
    using packBits_bits by blast
  have "i < 8 * length (packBits s)"
    using assms by (simp add: length_packBits)
  then have "bit (packBits s ! (i div 8)) (i mod 8) = unpack_all (packBits s) ! i"
    by (simp add: nth_unpack_all)
  also have "\<dots> = (s ! i = CHR ''1'')"
    using assms by (simp add: pad(2) nth_append)
  finally show ?thesis .
qed

lemma inner_loop_bits:
  "j \<le> 8 \<Longrightarrow>
   inner_loop c j n acc = acc @ map bitchar (take (n - length acc) (drop j (bits8 c)))"
proof (induction c j n acc rule: inner_loop.induct)
  case (1 byte j n acc)
  show ?case
  proof (cases "j < 8 \<and> length acc < n")
    case True
    then obtain m where m: "n - length acc = Suc m"
      by (metis Suc_diff_Suc)
    have d: "drop j (bits8 byte) = bit byte j # drop (Suc j) (bits8 byte)"
      using True by (simp add: nth_bits8 flip: Cons_nth_drop_Suc)
    have "inner_loop byte j n acc
          = inner_loop byte (j + 1) n (acc @ [if bit byte j then CHR ''1'' else CHR ''0''])"
      using True by (subst inner_loop.simps) simp
    also have "\<dots> = (acc @ [if bit byte j then CHR ''1'' else CHR ''0''])
          @ map bitchar (take (n - length (acc @ [if bit byte j then CHR ''1'' else CHR ''0'']))
              (drop (j + 1) (bits8 byte)))"
      using True by (intro "1.IH") simp_all
    also have "\<dots> = acc @ map bitchar (take (n - length acc) (drop j (bits8 byte)))"
    proof -
      have "n - length (acc @ [if bit byte j then CHR ''1'' else CHR ''0'']) = m"
        using m by simp
      then show ?thesis
        unfolding m d by (simp add: bitchar_def)
    qed
    finally show ?thesis .
  next
    case False
    then have "take (n - length acc) (drop j (bits8 byte)) = []"
      using "1.prems" by auto
    then show ?thesis
      using False by (subst inner_loop.simps) auto
  qed
qed

lemma outer_loop_bits:
  "acc = map bitchar (take n (unpack_all (map (byte_at junk bytes) [0..<i]))) \<Longrightarrow>
   outer_loop junk bytes remaining i n acc
     = map bitchar (take n (unpack_all (map (byte_at junk bytes) [0..<i + remaining])))"
proof (induction remaining arbitrary: i acc)
  case 0
  then show ?case by simp
next
  case (Suc remaining)
  let ?U = "unpack_all (map (byte_at junk bytes) [0..<i])"
  let ?c = "byte_at junk bytes i"
  have "inner_loop ?c 0 n acc = acc @ map bitchar (take (n - length acc) (bits8 ?c))"
    by (simp add: inner_loop_bits)
  also have "\<dots> = map bitchar (take n ?U) @ map bitchar (take (n - length ?U) (bits8 ?c))"
    unfolding Suc.prems by (simp add: min_def)
  also have "\<dots> = map bitchar (take n (unpack_all (map (byte_at junk bytes) [0..<Suc i])))"
    by simp
  finally have "inner_loop ?c 0 n acc
      = map bitchar (take n (unpack_all (map (byte_at junk bytes) [0..<Suc i])))" .
  then have "outer_loop junk bytes remaining (Suc i) n (inner_loop ?c 0 n acc)
      = map bitchar (take n (unpack_all (map (byte_at junk bytes) [0..<Suc i + remaining])))"
    by (rule Suc.IH)
  moreover have "outer_loop junk bytes (Suc remaining) i n acc
      = outer_loop junk bytes remaining (Suc i) n (inner_loop ?c 0 n acc)"
    by (simp add: byte_at_def)
  moreover have "Suc i + remaining = i + Suc remaining"
    by simp
  ultimately show ?case
    by (simp only:)
qed

lemma readEncodedData_bits:
  assumes "unat N \<le> 8 * length bytes"
  shows "readEncodedData junk bytes N = map bitchar (take (unat N) (unpack_all bytes))"
proof -
  let ?n = "unat N"
  let ?B = "map (byte_at junk bytes) [0..<?n]"
  have "readEncodedData junk bytes N = map bitchar (take ?n (unpack_all ?B))"
    using outer_loop_bits [of "[]" ?n junk bytes 0 ?n] by (simp add: readEncodedData_def)
  moreover have "take ?n (unpack_all ?B) = take ?n (unpack_all bytes)"
  proof (rule nth_equalityI)
    show "length (take ?n (unpack_all ?B)) = length (take ?n (unpack_all bytes))"
      using assms by simp
  next
    fix i
    assume "i < length (take ?n (unpack_all ?B))"
    then have i: "i < ?n" by simp
    then have d: "i div 8 < ?n" "i div 8 < length bytes"
      using assms by (auto simp: less_mult_imp_div_less div_le_dividend le_less_trans)
    have "unpack_all ?B ! i = bit (?B ! (i div 8)) (i mod 8)"
      using i by (intro nth_unpack_all) simp
    also have "\<dots> = bit (bytes ! (i div 8)) (i mod 8)"
      using d by (simp add: byte_at_def)
    also have "\<dots> = unpack_all bytes ! i"
      using i assms by (intro nth_unpack_all [symmetric]) simp
    finally show "take ?n (unpack_all ?B) ! i = take ?n (unpack_all bytes) ! i"
      using i by simp
  qed
  ultimately show ?thesis by simp
qed

lemma bitchar_inverse:
  "set bits \<subseteq> {CHR ''0'', CHR ''1''} \<Longrightarrow> map (\<lambda>c. bitchar (c = CHR ''1'')) bits = bits"
  by (induction bits) (auto simp: bitchar_def)

lemma unpack_agreeing_bytes:
  assumes alphabet: "set bits \<subseteq> {CHR ''0'', CHR ''1''}"
    and len: "length bits = unat N"
    and bytes: "length bytes = (length bits + 7) div 8"
    and agree: "\<forall>i<length bits. bit (bytes ! (i div 8)) (i mod 8) = (bits ! i = CHR ''1'')"
  shows "readEncodedData junk bytes N = bits"
proof -
  have le: "unat N \<le> 8 * length bytes"
    unfolding bytes len [symmetric] by simp
  have "take (unat N) (unpack_all bytes) = map (\<lambda>c. c = CHR ''1'') bits"
  proof (rule nth_equalityI)
    show "length (take (unat N) (unpack_all bytes)) = length (map (\<lambda>c. c = CHR ''1'') bits)"
      using le len by simp
  next
    fix i
    assume "i < length (take (unat N) (unpack_all bytes))"
    then have i: "i < length bits" using len by simp
    then have "i < 8 * length bytes" using le len by simp
    then have "unpack_all bytes ! i = bit (bytes ! (i div 8)) (i mod 8)"
      by (rule nth_unpack_all)
    then show "take (unat N) (unpack_all bytes) ! i = map (\<lambda>c. c = CHR ''1'') bits ! i"
      using i agree len by simp
  qed
  then have "readEncodedData junk bytes N = map bitchar (map (\<lambda>c. c = CHR ''1'') bits)"
    using le by (simp add: readEncodedData_bits)
  then show ?thesis
    using alphabet by (simp add: bitchar_inverse comp_def)
qed

text \<open>
  The bitset is zero when the loop starts and is reset after each byte written, so the
  bits of the last byte beyond the last logical bit are 0.
\<close>

lemma pack_loop_padding:
  "s \<noteq> [] \<or> i mod 8 = 0 \<Longrightarrow> \<forall>j\<ge>i mod 8. \<not> bit byte j \<Longrightarrow>
   \<exists>pad. length pad < 8 \<and> set pad \<subseteq> {False} \<and>
     unpack_all (pack_loop s i byte out)
       = unpack_all out @ take (i mod 8) (bits8 byte) @ map (\<lambda>c. c = CHR ''1'') s @ pad"
proof (induction s arbitrary: i byte out)
  case Nil
  then show ?case by simp
next
  case (Cons ch rest)
  let ?k = "i mod 8"
  let ?b1 = "assign_bit byte ?k (ch = CHR ''1'')"
  have k8: "?k < 8" by simp
  have upd: "bits8 ?b1 = (bits8 byte)[?k := (ch = CHR ''1'')]"
    using k8 by (rule bits8_assign_bit)
  have tk: "take (Suc ?k) (bits8 ?b1) = take ?k (bits8 byte) @ [ch = CHR ''1'']"
    unfolding upd using k8 by (simp add: take_Suc_update)
  have zero: "\<not> bit ?b1 j" if "j > ?k" for j
    using Cons.prems(2) that by (auto simp: assign_bit_def bit_set_bit_iff bit_unset_bit_iff)
  show ?case
  proof (cases "rest = []")
    case True
    let ?pad = "drop (Suc ?k) (bits8 ?b1)"
    have "bits8 ?b1 = take (Suc ?k) (bits8 ?b1) @ ?pad"
      by simp
    then have "bits8 ?b1 = take ?k (bits8 byte) @ [ch = CHR ''1''] @ ?pad"
      using tk by simp
    moreover have "length ?pad < 8"
      by simp
    moreover have "set ?pad \<subseteq> {False}"
    proof
      fix x assume "x \<in> set ?pad"
      then obtain n where n: "n < length ?pad" "x = ?pad ! n"
        by (auto simp: in_set_conv_nth)
      then have "x = bit ?b1 (Suc ?k + n)"
        by (simp add: nth_bits8)
      then show "x \<in> {False}"
        using zero [of "Suc ?k + n"] by simp
    qed
    ultimately show ?thesis
      using True by (intro exI [of _ ?pad]) simp
  next
    case False
    show ?thesis
    proof (cases "?k = 7")
      case True
      then have nxt: "(i + 1) mod 8 = 0"
        by (simp add: mod_Suc)
      obtain pad where pad: "length pad < 8" "set pad \<subseteq> {False}"
        "unpack_all (pack_loop rest (i + 1) 0 (out @ [?b1]))
           = unpack_all (out @ [?b1]) @ take ((i + 1) mod 8) (bits8 0)
             @ map (\<lambda>c. c = CHR ''1'') rest @ pad"
        using Cons.IH [of "i + 1" 0 "out @ [?b1]"] nxt by auto
      have "bits8 ?b1 = take (Suc ?k) (bits8 ?b1)"
        using True by simp
      then have "bits8 ?b1 = take ?k (bits8 byte) @ [ch = CHR ''1'']"
        using tk by simp
      then show ?thesis
        using pad True nxt by (intro exI [of _ pad]) simp
    next
      case k7: False
      then have nxt: "(i + 1) mod 8 = Suc ?k"
        by (simp add: mod_Suc)
      have "\<forall>j\<ge>(i + 1) mod 8. \<not> bit ?b1 j"
        unfolding nxt using zero by (simp add: Suc_le_eq)
      then obtain pad where pad: "length pad < 8" "set pad \<subseteq> {False}"
        "unpack_all (pack_loop rest (i + 1) ?b1 out)
           = unpack_all out @ take ((i + 1) mod 8) (bits8 ?b1)
             @ map (\<lambda>c. c = CHR ''1'') rest @ pad"
        using Cons.IH [of "i + 1" ?b1 out] False by auto
      show ?thesis
        using pad k7 False nxt tk by (intro exI [of _ pad]) simp
    qed
  qed
qed

lemma packBits_padding_zero:
  assumes "length s \<le> i" "i < 8 * length (packBits s)"
  shows "\<not> bit (packBits s ! (i div 8)) (i mod 8)"
proof -
  obtain pad where pad: "set pad \<subseteq> {False}"
    "unpack_all (packBits s) = map (\<lambda>c. c = CHR ''1'') s @ pad"
    using pack_loop_padding [of s 0 0 "[]"] by (auto simp: packBits_def)
  have "length (unpack_all (packBits s)) = length s + length pad"
    by (simp add: pad(2))
  then have "i - length s < length pad"
    using assms by simp
  then have "pad ! (i - length s) \<in> set pad"
    by simp
  then have "\<not> pad ! (i - length s)"
    using pad(1) by auto
  moreover have "bit (packBits s ! (i div 8)) (i mod 8) = unpack_all (packBits s) ! i"
    using assms(2) by (simp add: nth_unpack_all)
  ultimately show ?thesis
    using assms(1) by (simp add: pad(2) nth_append)
qed

text \<open>
  \<open>readEncodedData\<close> returns at most as many bits as its count says, and the count is a
  \<^verbatim>\<open>uint32_t\<close>: no count makes it return a string of \<open>2^32\<close> bits or more.
\<close>

lemma length_readEncodedData: "length (readEncodedData junk bytes N) \<le> unat N"
  using outer_loop_bits [of "[]" "unat N" junk bytes 0 "unat N"]
  by (simp add: readEncodedData_def)

lemma unat_32_bound: "unat (N :: 32 word) < 2 ^ 32"
  using unsigned_less [of N, where 'a = nat] by simp

lemma readEncodedData_short:
  "2 ^ 32 \<le> length bits \<Longrightarrow> readEncodedData junk bytes N \<noteq> bits"
proof
  assume long: "2 ^ 32 \<le> length bits" and eq: "readEncodedData junk bytes N = bits"
  have "length bits \<le> unat N"
    using length_readEncodedData [of junk bytes N] eq by simp
  then show False
    using long unat_32_bound [of N] by simp
qed

section \<open>The decoder's tree and its walk\<close>

text \<open>
  \<open>descend t p\<close> is the node reached from \<open>t\<close> along the characters of \<open>p\<close> (\<open>0\<close> to the
  left, anything else to the right), or null. A code table is \<open>decodable\<close> when it is a
  map (each key once) whose codes are non-empty strings of \<open>0\<close> and \<open>1\<close>, none a prefix
  of another. \<open>codewords tbl ks\<close> is the concatenation of the codes of the samples \<open>ks\<close>.
\<close>

lemma bitstring_Nil [simp]: "bitstring []"
  by (simp add: bitstring_def)

lemma bitstring_Cons [simp]: "bitstring (b # bs) = ((b = CHR ''0'' \<or> b = CHR ''1'') \<and> bitstring bs)"
  by (auto simp: bitstring_def)

lemma bitstring_append [simp]: "bitstring (p @ q) = (bitstring p \<and> bitstring q)"
  by (auto simp: bitstring_def)

lemma bitstring_prefix: "prefix p c \<Longrightarrow> bitstring c \<Longrightarrow> bitstring p"
  by (auto simp: prefix_def)

lemma descend_DNull [simp]: "descend DNull p = DNull"
  by (cases p) simp_all

lemma descend_append: "descend t (p @ q) = descend (descend t p) q"
  by (induction t p rule: descend.induct) simp_all

lemma insert_path_not_DNull [simp]: "t \<noteq> DNull \<Longrightarrow> insert_path c s t \<noteq> DNull"
  by (cases t; cases c) simp_all

lemma child_or_new_not_DNull [simp]: "child_or_new n \<noteq> DNull"
  by (simp add: child_or_new_def new_node_def)

lemma descend_child_or_new:
  "descend (child_or_new n) p = DNull \<longleftrightarrow> descend n p = DNull \<and> p \<noteq> []"
  by (cases p) (auto simp: child_or_new_def new_node_def)

lemma insert_path_nodes:
  "t \<noteq> DNull \<Longrightarrow> bitstring c \<Longrightarrow> bitstring p \<Longrightarrow>
   descend (insert_path c s t) p = DNull \<longleftrightarrow> descend t p = DNull \<and> \<not> prefix p c"
proof (induction c arbitrary: t p)
  case Nil
  then obtain x l r where t: "t = DNode x l r" by (cases t) auto
  show ?case by (cases p) (simp_all add: t)
next
  case (Cons b c)
  then obtain x l r where t: "t = DNode x l r" by (cases t) auto
  show ?case
  proof (cases p)
    case Nil
    then show ?thesis by (simp add: t)
  next
    case p: (Cons b' p')
    from Cons.prems p have bs: "bitstring c" "bitstring p'"
      and b: "b = CHR ''0'' \<or> b = CHR ''1''" and b': "b' = CHR ''0'' \<or> b' = CHR ''1''"
      by simp_all
    show ?thesis
    proof (cases "b' = b")
      case True
      have "descend (insert_path c s (child_or_new n)) p' = DNull
            \<longleftrightarrow> descend n p' = DNull \<and> \<not> prefix p' c" for n
        using Cons.IH [of "child_or_new n" p'] bs
        by (auto simp: descend_child_or_new)
      then show ?thesis
        using True by (simp add: t p)
    next
      case False
      then show ?thesis
        using b b' by (auto simp: t p)
    qed
  qed
qed

lemma insert_path_sample_at:
  "t \<noteq> DNull \<Longrightarrow> dsample (descend (insert_path c s t) c) = s"
proof (induction c arbitrary: t)
  case Nil
  then show ?case by (cases t) auto
next
  case (Cons b c)
  then obtain x l r where t: "t = DNode x l r" by (cases t) auto
  show ?case
    using Cons.IH [of "child_or_new l"] Cons.IH [of "child_or_new r"] by (simp add: t)
qed

lemma insert_path_sample_other:
  "descend t p \<noteq> DNull \<Longrightarrow> bitstring c \<Longrightarrow> bitstring p \<Longrightarrow> p \<noteq> c \<Longrightarrow>
   dsample (descend (insert_path c s t) p) = dsample (descend t p)"
proof (induction c arbitrary: t p)
  case Nil
  then obtain x l r where t: "t = DNode x l r" by (cases t) auto
  from Nil show ?case by (cases p) (simp_all add: t)
next
  case (Cons b c)
  then obtain x l r where t: "t = DNode x l r" by (cases t) auto
  show ?case
  proof (cases p)
    case Nil
    then show ?thesis by (simp add: t)
  next
    case p: (Cons b' p')
    from Cons.prems p have bs: "bitstring c" "bitstring p'"
      and b: "b = CHR ''0'' \<or> b = CHR ''1''" and b': "b' = CHR ''0'' \<or> b' = CHR ''1''"
      by simp_all
    show ?thesis
    proof (cases "b' = b")
      case True
      with Cons.prems p have ne: "p' \<noteq> c" by simp
      have "dsample (descend (insert_path c s (child_or_new n)) p') = dsample (descend n p')"
        if "descend n p' \<noteq> DNull" for n
      proof -
        from that have "n \<noteq> DNull" by auto
        then have "child_or_new n = n" by (simp add: child_or_new_def)
        then show ?thesis using Cons.IH [of n p'] that bs ne by simp
      qed
      then show ?thesis
        using True Cons.prems(1) by (auto simp: t p split: if_splits)
    next
      case False
      then show ?thesis
        using b b' by (auto simp: t p)
    qed
  qed
qed

lemma insert_all_Nil [simp]: "insert_all t [] = t"
  by (simp add: insert_all_def)

lemma insert_all_Cons: "insert_all t ((s, c) # es) = insert_all (insert_path c s t) es"
  by (simp add: insert_all_def)

lemma insert_all_not_DNull [simp]: "t \<noteq> DNull \<Longrightarrow> insert_all t es \<noteq> DNull"
proof (induction es arbitrary: t)
  case Nil
  then show ?case by simp
next
  case (Cons e es)
  obtain s c where e: "e = (s, c)" by (cases e)
  show ?case
    unfolding e insert_all_Cons using Cons.prems by (intro Cons.IH) simp
qed

lemma insert_all_nodes:
  "t \<noteq> DNull \<Longrightarrow> \<forall>(s, c) \<in> set es. bitstring c \<Longrightarrow> bitstring p \<Longrightarrow>
   descend (insert_all t es) p = DNull
     \<longleftrightarrow> descend t p = DNull \<and> (\<forall>(s, c) \<in> set es. \<not> prefix p c)"
proof (induction es arbitrary: t)
  case Nil
  then show ?case by simp
next
  case (Cons e es)
  obtain s c where e: "e = (s, c)" by (cases e)
  have "descend (insert_all (insert_path c s t) es) p = DNull
     \<longleftrightarrow> descend (insert_path c s t) p = DNull \<and> (\<forall>(s, c) \<in> set es. \<not> prefix p c)"
    using Cons.prems by (intro Cons.IH) (simp_all add: e)
  moreover have "descend (insert_path c s t) p = DNull
     \<longleftrightarrow> descend t p = DNull \<and> \<not> prefix p c"
    using Cons.prems by (intro insert_path_nodes) (simp_all add: e)
  ultimately show ?case
    by (simp add: e insert_all_Cons)
qed

lemma insert_all_sample_other:
  "descend t p \<noteq> DNull \<Longrightarrow> \<forall>(s, c) \<in> set es. bitstring c \<Longrightarrow> bitstring p
   \<Longrightarrow> p \<notin> snd ` set es
   \<Longrightarrow> dsample (descend (insert_all t es) p) = dsample (descend t p)"
proof (induction es arbitrary: t)
  case Nil
  then show ?case by simp
next
  case (Cons e es)
  obtain s c where e: "e = (s, c)" by (cases e)
  from Cons.prems have t: "t \<noteq> DNull" by auto
  from Cons.prems have c: "bitstring c" "p \<noteq> c" by (auto simp: e)
  have keep: "descend (insert_path c s t) p \<noteq> DNull"
    using Cons.prems t c by (simp add: insert_path_nodes)
  have "dsample (descend (insert_all (insert_path c s t) es) p)
        = dsample (descend (insert_path c s t) p)"
    using keep Cons.prems by (intro Cons.IH) (auto simp: e)
  also have "\<dots> = dsample (descend t p)"
    using Cons.prems c by (intro insert_path_sample_other) simp_all
  finally show ?case by (simp add: e insert_all_Cons)
qed

lemma insert_all_sample:
  "t \<noteq> DNull \<Longrightarrow> \<forall>(s, c) \<in> set es. bitstring c \<Longrightarrow> distinct (map snd es)
   \<Longrightarrow> (s, c) \<in> set es \<Longrightarrow> dsample (descend (insert_all t es) c) = s"
proof (induction es arbitrary: t)
  case Nil
  then show ?case by simp
next
  case (Cons e es)
  obtain s' c' where e: "e = (s', c')" by (cases e)
  show ?case
  proof (cases "(s, c) \<in> set es")
    case True
    then show ?thesis
      using Cons.prems by (simp add: e insert_all_Cons Cons.IH)
  next
    case False
    with Cons.prems have sc: "s' = s" "c' = c" by (auto simp: e)
    have bc: "bitstring c" using Cons.prems sc by (auto simp: e)
    have "descend (insert_path c s t) c \<noteq> DNull"
      using Cons.prems(1) bc by (simp add: insert_path_nodes)
    then have "dsample (descend (insert_all (insert_path c s t) es) c)
          = dsample (descend (insert_path c s t) c)"
      using Cons.prems bc sc by (intro insert_all_sample_other) (auto simp: e)
    then show ?thesis
      using Cons.prems(1) by (simp add: e sc insert_all_Cons insert_path_sample_at)
  qed
qed

lemma codewords_Nil [simp]: "codewords tbl [] = []"
  by (simp add: codewords_def)

lemma codewords_Cons [simp]: "codewords tbl (k # ks) = the (map_of tbl k) @ codewords tbl ks"
  by (simp add: codewords_def)

lemma dec_buildHuffmanTree_insert_all: "dec_buildHuffmanTree tbl = insert_all new_node tbl"
  by (simp add: dec_buildHuffmanTree_def insert_all_def)

lemma new_node_not_DNull [simp]: "new_node \<noteq> DNull"
  by (simp add: new_node_def)

lemma descend_new_node [simp]: "descend new_node p = DNull \<longleftrightarrow> p \<noteq> []"
  by (cases p) (simp_all add: new_node_def)

lemma decodable_same_code:
  assumes "decodable tbl" "(s, c) \<in> set tbl" "(s', c') \<in> set tbl" "prefix c c'"
  shows "s' = s \<and> c' = c"
proof -
  have "s' = s"
    using assms by (auto simp: decodable_def prefix_free_def)
  moreover have "c' = c" if "s' = s"
    using assms that by (auto simp: decodable_def dest: eq_key_imp_eq_value)
  ultimately show ?thesis by simp
qed

lemma decodable_distinct_codes: "decodable tbl \<Longrightarrow> distinct (map snd tbl)"
proof -
  assume d: "decodable tbl"
  then have "distinct tbl"
    by (auto simp: decodable_def distinct_map)
  moreover have "inj_on snd (set tbl)"
  proof (rule inj_onI)
    fix e e' assume e: "e \<in> set tbl" "e' \<in> set tbl" "snd e = snd e'"
    obtain a ca b cb where p: "e = (a, ca)" "e' = (b, cb)"
      by (cases e; cases e')
    have "prefix ca cb" using e p by simp
    then show "e = e'"
      using decodable_same_code [OF d, of a ca b cb] e p by simp
  qed
  ultimately show ?thesis by (simp add: distinct_map)
qed

lemma decodable_nonempty: "decodable tbl \<Longrightarrow> (s, c) \<in> set tbl \<Longrightarrow> c \<noteq> []"
  by (auto simp: decodable_def)

lemma decodable_bitstring: "decodable tbl \<Longrightarrow> \<forall>(s, c) \<in> set tbl. bitstring c"
  by (auto simp: decodable_def)

lemma table_node:
  assumes "decodable tbl" "(s, c) \<in> set tbl" "prefix p c"
  shows "descend (dec_buildHuffmanTree tbl) p \<noteq> DNull"
proof -
  have "bitstring p"
    using assms by (auto simp: decodable_def dest: bitstring_prefix)
  then show ?thesis
    using assms decodable_bitstring [OF assms(1)]
    by (auto simp: dec_buildHuffmanTree_insert_all insert_all_nodes)
qed

lemma table_no_node:
  assumes "decodable tbl" "(s, c) \<in> set tbl" "b = CHR ''0'' \<or> b = CHR ''1''"
  shows "descend (dec_buildHuffmanTree tbl) (c @ [b]) = DNull"
proof -
  have "bitstring (c @ [b])"
    using assms by (auto simp: decodable_def)
  moreover have "\<not> prefix (c @ [b]) c'" if "(s', c') \<in> set tbl" for s' c'
  proof
    assume p: "prefix (c @ [b]) c'"
    then have "prefix c c'" by (rule append_prefixD)
    then have "c' = c" using decodable_same_code [OF assms(1,2) that] by simp
    with p show False by simp
  qed
  ultimately show ?thesis
    using decodable_bitstring [OF assms(1)]
    by (auto simp: dec_buildHuffmanTree_insert_all insert_all_nodes)
qed

lemma table_leaf:
  assumes "decodable tbl" "(s, c) \<in> set tbl"
  shows "descend (dec_buildHuffmanTree tbl) c = DNode s DNull DNull"
proof -
  let ?T = "dec_buildHuffmanTree tbl"
  have "descend ?T c \<noteq> DNull"
    using assms by (rule table_node) simp
  then obtain x l r where n: "descend ?T c = DNode x l r"
    by (cases "descend ?T c") auto
  have "dsample (descend ?T c) = s"
    using assms decodable_bitstring [OF assms(1)] decodable_distinct_codes [OF assms(1)]
    by (simp add: dec_buildHuffmanTree_insert_all insert_all_sample)
  then have "x = s" by (simp add: n)
  moreover have "l = DNull"
    using table_no_node [OF assms, of "CHR ''0''"] by (simp add: descend_append n)
  moreover have "r = DNull"
    using table_no_node [OF assms, of "CHR ''1''"] by (simp add: descend_append n)
  ultimately show ?thesis by (simp add: n)
qed

lemma table_inner:
  assumes "decodable tbl" "(s, c) \<in> set tbl" "strict_prefix p c"
  shows "descend (dec_buildHuffmanTree tbl) p \<noteq> DNull
         \<and> \<not> is_leaf (descend (dec_buildHuffmanTree tbl) p)"
proof -
  let ?T = "dec_buildHuffmanTree tbl"
  from assms(3) obtain b q where c: "c = p @ b # q"
    by (rule strict_prefixE')
  then have "prefix (p @ [b]) c" by simp
  then have "descend ?T (p @ [b]) \<noteq> DNull"
    by (rule table_node [OF assms(1,2)])
  then have "descend (descend ?T p) [b] \<noteq> DNull"
    by (simp add: descend_append)
  then show ?thesis
    by (cases "descend ?T p") (auto simp: is_leaf_def split: if_splits)
qed

lemma walk_codeword:
  "c \<noteq> [] \<Longrightarrow> descend cur c = DNode s DNull DNull
   \<Longrightarrow> \<forall>p. strict_prefix p c \<longrightarrow> p \<noteq> [] \<longrightarrow> \<not> is_leaf (descend cur p)
   \<Longrightarrow> decode_loop (c @ rest) root cur acc = decode_loop rest root root (acc @ [s])"
proof (induction c arbitrary: cur)
  case Nil
  then show ?case by simp
next
  case (Cons b c)
  from Cons.prems(2) obtain x l r where cur: "cur = DNode x l r"
    by (cases cur) auto
  let ?nxt = "if b = CHR ''0'' then l else r"
  have d: "descend ?nxt c = DNode s DNull DNull"
    using Cons.prems(2) by (simp add: cur)
  show ?case
  proof (cases "c = []")
    case True
    with d have "?nxt = DNode s DNull DNull" by simp
    then show ?thesis
      using True by (auto simp: cur split: if_splits)
  next
    case False
    from d obtain x' l' r' where nxt: "?nxt = DNode x' l' r'"
      by (cases ?nxt) auto
    have "strict_prefix [b] (b # c)"
      using False by (simp add: strict_prefix_def)
    then have "\<not> is_leaf (descend cur [b])"
      using Cons.prems(3) by blast
    then have nl: "\<not> (l' = DNull \<and> r' = DNull)"
      using nxt by (simp add: cur is_leaf_def)
    have inner: "\<forall>p. strict_prefix p c \<longrightarrow> p \<noteq> [] \<longrightarrow> \<not> is_leaf (descend ?nxt p)"
    proof (intro allI impI)
      fix p assume "strict_prefix p c" "p \<noteq> []"
      then have "strict_prefix (b # p) (b # c)" by simp
      then have "\<not> is_leaf (descend cur (b # p))"
        using Cons.prems(3) by blast
      then show "\<not> is_leaf (descend ?nxt p)" by (simp add: cur)
    qed
    have "decode_loop ((b # c) @ rest) root cur acc = decode_loop (c @ rest) root ?nxt acc"
      using nxt nl by (auto simp: cur split: if_splits)
    also have "\<dots> = decode_loop rest root root (acc @ [s])"
      using False d inner by (rule Cons.IH)
    finally show ?thesis .
  qed
qed

lemma walk_partial:
  "cur \<noteq> DNull
   \<Longrightarrow> \<forall>q. prefix q p \<longrightarrow> q \<noteq> [] \<longrightarrow> descend cur q \<noteq> DNull \<and> \<not> is_leaf (descend cur q)
   \<Longrightarrow> decode_loop p root cur acc = Inr (acc, descend cur p)"
proof (induction p arbitrary: cur)
  case Nil
  then show ?case by simp
next
  case (Cons b p)
  from Cons.prems(1) obtain x l r where cur: "cur = DNode x l r"
    by (cases cur) auto
  let ?nxt = "if b = CHR ''0'' then l else r"
  have "prefix [b] (b # p)" by simp
  then have "descend cur [b] \<noteq> DNull \<and> \<not> is_leaf (descend cur [b])"
    using Cons.prems(2) by blast
  then have nz: "?nxt \<noteq> DNull" and nl: "\<not> is_leaf ?nxt"
    by (simp_all add: cur)
  then obtain x' l' r' where nxt: "?nxt = DNode x' l' r'" "\<not> (l' = DNull \<and> r' = DNull)"
    by (cases ?nxt) (auto simp: is_leaf_def)
  have inner: "\<forall>q. prefix q p \<longrightarrow> q \<noteq> []
      \<longrightarrow> descend ?nxt q \<noteq> DNull \<and> \<not> is_leaf (descend ?nxt q)"
  proof (intro allI impI)
    fix q assume "prefix q p" "q \<noteq> []"
    then have "prefix (b # q) (b # p)" by simp
    then have "descend cur (b # q) \<noteq> DNull \<and> \<not> is_leaf (descend cur (b # q))"
      using Cons.prems(2) by blast
    then show "descend ?nxt q \<noteq> DNull \<and> \<not> is_leaf (descend ?nxt q)" by (simp add: cur)
  qed
  have "decode_loop (b # p) root cur acc = decode_loop p root ?nxt acc"
    using nxt by (auto simp: cur split: if_splits)
  also have "\<dots> = Inr (acc, descend ?nxt p)"
    using nz inner by (rule Cons.IH)
  finally show ?case by (simp add: cur)
qed

lemma size_descend:
  "p \<noteq> [] \<Longrightarrow> descend t p \<noteq> DNull \<Longrightarrow> size (descend t p) < size t"
proof (induction t p rule: descend.induct)
  case (1 n)
  then show ?case by simp
next
  case (2 b bits)
  then show ?case by simp
next
  case (3 x l r b bits)
  let ?nxt = "if b = CHR ''0'' then l else r"
  have "size ?nxt < size (DNode x l r)" by simp
  moreover have "size (descend ?nxt bits) \<le> size ?nxt"
  proof (cases "bits = []")
    case True
    then show ?thesis by simp
  next
    case False
    then show ?thesis using 3 by (auto simp: less_imp_le split: if_splits)
  qed
  ultimately show ?case by simp
qed

lemma table_lookup:
  "k \<in> fst ` set tbl \<Longrightarrow> (k, the (map_of tbl k)) \<in> set tbl"
proof -
  assume "k \<in> fst ` set tbl"
  then obtain c where "map_of tbl k = Some c"
    by (cases "map_of tbl k") (auto simp: map_of_eq_None_iff)
  then show ?thesis by (auto dest: map_of_SomeD)
qed

lemma decode_codewords:
  assumes "decodable tbl" "set ks \<subseteq> fst ` set tbl"
  shows "decode_loop (codewords tbl ks @ rest)
           (dec_buildHuffmanTree tbl) (dec_buildHuffmanTree tbl) acc
         = decode_loop rest (dec_buildHuffmanTree tbl) (dec_buildHuffmanTree tbl) (acc @ ks)"
  using assms(2)
proof (induction ks arbitrary: acc)
  case Nil
  then show ?case by simp
next
  case (Cons k ks)
  let ?T = "dec_buildHuffmanTree tbl"
  let ?c = "the (map_of tbl k)"
  have "k \<in> fst ` set tbl"
    using Cons.prems by simp
  then have k: "(k, ?c) \<in> set tbl"
    by (rule table_lookup)
  have ne: "?c \<noteq> []"
    using assms(1) k by (rule decodable_nonempty)
  have leaf: "descend ?T ?c = DNode k DNull DNull"
    using assms(1) k by (rule table_leaf)
  have inner: "\<forall>p. strict_prefix p ?c \<longrightarrow> p \<noteq> [] \<longrightarrow> \<not> is_leaf (descend ?T p)"
    using table_inner [OF assms(1) k] by blast
  have "decode_loop (?c @ codewords tbl ks @ rest) ?T ?T acc
        = decode_loop (codewords tbl ks @ rest) ?T ?T (acc @ [k])"
    using ne leaf inner by (rule walk_codeword)
  also have "\<dots> = decode_loop rest ?T ?T ((acc @ [k]) @ ks)"
  proof (rule Cons.IH)
    show "set ks \<subseteq> fst ` set tbl" using Cons.prems by simp
  qed
  finally show ?case by simp
qed

section \<open>The priority queue keeps its elements\<close>

text \<open>
  \<open>push\<close> adds one element and \<open>pop\<close> removes the top, whatever the order in which
  the heap operations leave the rest.
\<close>

lemma mset_swap_list: "i < length c \<Longrightarrow> j < length c \<Longrightarrow> mset (swap c i j) = mset c"
  unfolding swap_def by (simp add: mset_swap)

lemma mset_push_heap_loop:
  "h < length c \<Longrightarrow> mset (push_heap_loop c h t) = mset c"
proof (induction c h t rule: push_heap_loop.induct)
  case (1 c h t)
  let ?parent = "(h - 1) div 2"
  have p: "?parent < length c"
    using "1.prems" by (simp add: less_imp_diff_less div_le_dividend le_less_trans)
  show ?case
  proof (cases "h > t \<and> Compare (c ! ?parent) (c ! h)")
    case True
    then have "push_heap_loop c h t = push_heap_loop (swap c h ?parent) ?parent t"
      by (subst push_heap_loop.simps) (simp add: Let_def)
    moreover have "mset (push_heap_loop (swap c h ?parent) ?parent t) = mset (swap c h ?parent)"
    proof (rule "1.IH" [OF refl True])
      show "?parent < length (swap c h ?parent)" using p by simp
    qed
    ultimately show ?thesis
      using p "1.prems" by (simp add: mset_swap_list)
  next
    case False
    then show ?thesis
      by (subst push_heap_loop.simps) (auto simp: Let_def)
  qed
qed

lemma adjust_heap_down_props:
  "n \<le> length c \<Longrightarrow> h < n \<Longrightarrow>
   mset (fst (adjust_heap_down c h n)) = mset c \<and> snd (adjust_heap_down c h n) < n"
proof (induction c h n rule: adjust_heap_down.induct)
  case (1 c h n)
  show ?case
  proof (cases "h < (n - 1) div 2")
    case True
    let ?sc = "2 * (h + 1)"
    let ?sc' = "if Compare (c ! ?sc) (c ! (?sc - 1)) then ?sc - 1 else ?sc"
    have sc: "?sc < n"
      using True by arith
    then have sc': "?sc' < n" by simp
    have eq: "adjust_heap_down c h n = adjust_heap_down (swap c h ?sc') ?sc' n"
      using True by (subst adjust_heap_down.simps) (simp add: Let_def)
    have "mset (fst (adjust_heap_down (swap c h ?sc') ?sc' n)) = mset (swap c h ?sc')
          \<and> snd (adjust_heap_down (swap c h ?sc') ?sc' n) < n"
    proof (rule "1.IH" [OF True refl refl])
      show "n \<le> length (swap c h ?sc')" using "1.prems" by simp
      show "?sc' < n" by (rule sc')
    qed
    moreover have "mset (swap c h ?sc') = mset c"
      using "1.prems" sc' by (intro mset_swap_list) simp_all
    ultimately show ?thesis
      unfolding eq by simp
  next
    case False
    then show ?thesis
      using "1.prems" by (subst (1 2) adjust_heap_down.simps) simp
  qed
qed

lemma mset_adjust_heap:
  assumes "n \<le> length c" "0 < n"
  shows "mset (adjust_heap c 0 n) = mset c"
proof -
  obtain c1 h1 where a: "adjust_heap_down c 0 n = (c1, h1)"
    by (cases "adjust_heap_down c 0 n")
  have c1: "mset c1 = mset c" "h1 < n"
    using adjust_heap_down_props [OF assms] a by simp_all
  then have len: "length c1 = length c"
    by (metis size_mset)
  show ?thesis
  proof (cases "even n \<and> h1 = (n - 2) div 2")
    case True
    then obtain m where m: "n = 2 * m" by (auto elim: evenE)
    with assms(2) have "0 < m" by simp
    then have i: "2 * (h1 + 1) - 1 < n" using True m by (cases m) auto
    have "adjust_heap c 0 n
          = push_heap_loop (swap c1 h1 (2 * (h1 + 1) - 1)) (2 * (h1 + 1) - 1) 0"
      using True by (simp add: adjust_heap_def a)
    moreover have "mset (push_heap_loop (swap c1 h1 (2 * (h1 + 1) - 1)) (2 * (h1 + 1) - 1) 0)
          = mset (swap c1 h1 (2 * (h1 + 1) - 1))"
      using i assms(1) len by (intro mset_push_heap_loop) simp
    moreover have "mset (swap c1 h1 (2 * (h1 + 1) - 1)) = mset c1"
      using i c1(2) assms(1) len by (intro mset_swap_list) simp_all
    ultimately show ?thesis using c1(1) by simp
  next
    case False
    then have "adjust_heap c 0 n = push_heap_loop c1 h1 0"
      by (auto simp: adjust_heap_def a)
    moreover have "mset (push_heap_loop c1 h1 0) = mset c1"
      using c1(2) assms(1) len by (intro mset_push_heap_loop) simp
    ultimately show ?thesis using c1(1) by simp
  qed
qed

lemma mset_pq_push: "mset (pq_push x c) = add_mset x (mset c)"
  by (simp add: pq_push_def mset_push_heap_loop)

lemma mset_pq_pop: "c \<noteq> [] \<Longrightarrow> add_mset (hd c) (mset (pq_pop c)) = mset c"
proof -
  assume ne: "c \<noteq> []"
  show ?thesis
  proof (cases "length c > 1")
    case True
    then obtain x rest where xr: "c = x # rest" "rest \<noteq> []"
      by (cases c) auto
    then obtain ys y where "rest = ys @ [y]"
      by (cases rest rule: rev_cases) auto
    with xr have c: "c = x # ys @ [y]" by simp
    have "mset (pq_pop c) = mset ((butlast c)[0 := last c])"
      using True by (simp add: pq_pop_def mset_adjust_heap)
    then show ?thesis
      by (simp add: c butlast_append)
  next
    case False
    with ne obtain x where "c = [x]"
      by (cases c) auto
    then show ?thesis by (simp add: pq_pop_def)
  qed
qed

section \<open>The tree built by the encoder\<close>

text \<open>
  \<open>leaves t\<close> are the samples at the nodes without children, left to right. A tree is
  \<open>proper\<close> when every node has no child at all or has the sample \<open>-1\<close> and two proper
  children. From a non-empty frequency table \<open>buildHuffmanTree\<close> returns a proper tree
  whose leaves are the samples of the table, each once; with two entries or more its root
  is not a leaf.
\<close>

lemma leaves_mset_add [simp]: "leaves_mset (add_mset t M) = mset (leaves t) + leaves_mset M"
  by (simp add: leaves_mset_def)

lemma leaves_mset_empty [simp]: "leaves_mset {#} = {#}"
  by (simp add: leaves_mset_def)

lemma proper_not_Null: "proper t \<Longrightarrow> t \<noteq> Null"
  by auto

lemma build_loop_tree:
  "minHeap \<noteq> [] \<Longrightarrow> \<forall>t \<in> set minHeap. proper t \<Longrightarrow>
   \<exists>t. build_loop minHeap = [t] \<and> proper t
     \<and> mset (leaves t) = leaves_mset (mset minHeap)
     \<and> (length minHeap > 1 \<longrightarrow> left t \<noteq> Null)"
proof (induction minHeap rule: build_loop.induct)
  case (1 minHeap)
  show ?case
  proof (cases "length minHeap > 1")
    case True
    let ?left = "hd minHeap"
    let ?q1 = "pq_pop minHeap"
    let ?right = "hd ?q1"
    let ?q2 = "pq_pop ?q1"
    let ?combined = "Node (- 1) (frequency ?left + frequency ?right) ?left ?right"
    let ?q3 = "pq_push ?combined ?q2"
    have q1: "?q1 \<noteq> []"
      using True by (simp flip: length_greater_0_conv)
    have m1: "add_mset ?left (mset ?q1) = mset minHeap"
      using "1.prems"(1) by (rule mset_pq_pop)
    have m2: "add_mset ?right (mset ?q2) = mset ?q1"
      using q1 by (rule mset_pq_pop)
    have m3: "mset ?q3 = add_mset ?combined (mset ?q2)"
      by (rule mset_pq_push)
    have sub1: "set ?q1 \<subseteq> set minHeap"
      using m1 by (metis set_mset_mset set_mset_add_mset_insert subset_insertI)
    have sub2: "set ?q2 \<subseteq> set ?q1"
      using m2 by (metis set_mset_mset set_mset_add_mset_insert subset_insertI)
    have pl: "proper ?left"
      using "1.prems" by simp
    have pr: "proper ?right"
      using "1.prems"(2) q1 sub1 by (meson hd_in_set subsetD)
    have pc: "proper ?combined"
      using pl pr by simp
    have lc: "mset (leaves ?combined) = mset (leaves ?left) + mset (leaves ?right)"
      using proper_not_Null [OF pl] by simp
    have "set ?q3 = insert ?combined (set ?q2)"
      using m3 by (metis set_mset_mset set_mset_add_mset_insert)
    then have all3: "\<forall>t \<in> set ?q3. proper t"
      using pc "1.prems"(2) sub1 sub2 by auto
    have q3: "?q3 \<noteq> []"
      by (simp flip: length_greater_0_conv)
    have "\<exists>t. build_loop ?q3 = [t] \<and> proper t
       \<and> mset (leaves t) = leaves_mset (mset ?q3)
       \<and> (length ?q3 > 1 \<longrightarrow> left t \<noteq> Null)"
      using q3 all3 by (rule "1.IH" [OF True refl refl refl refl refl])
    then obtain t where t: "build_loop ?q3 = [t]" "proper t"
      "mset (leaves t) = leaves_mset (mset ?q3)" "length ?q3 > 1 \<longrightarrow> left t \<noteq> Null"
      by blast
    have step: "build_loop minHeap = build_loop ?q3"
      using True by (subst build_loop.simps) (simp add: Let_def)
    have "leaves_mset (mset ?q3) = leaves_mset (mset minHeap)"
      unfolding m3 m1 [symmetric] m2 [symmetric] by (simp add: lc del: leaves.simps)
    moreover have "left t \<noteq> Null"
    proof (cases "length ?q3 > 1")
      case True
      then show ?thesis using t(4) by simp
    next
      case False
      then obtain x where x: "?q3 = [x]"
        using q3 by (cases ?q3) auto
      then have "{#x#} = add_mset ?combined (mset ?q2)"
        using m3 by simp
      then have xc: "x = ?combined"
        by simp
      have "build_loop [x] = [x]"
        by (subst build_loop.simps) simp
      then have "t = ?combined"
        using t(1) x xc by simp
      then have "left t = ?left"
        by simp
      then show ?thesis
        using proper_not_Null [OF pl] by simp
    qed
    ultimately show ?thesis
      using t step by simp
  next
    case False
    with "1.prems" obtain t where t: "minHeap = [t]"
      by (cases minHeap) auto
    have "build_loop [t] = [t]"
      by (subst build_loop.simps) simp
    then show ?thesis
      using "1.prems"(2) by (simp add: t)
  qed
qed

lemma mset_seed_heap:
  "mset (seed_heap frequencies) = mset (map (\<lambda>(s, f). Node s f Null Null) frequencies)"
proof -
  have "mset (foldl (\<lambda>minHeap (s, f). pq_push (Node s f Null Null) minHeap) q frequencies)
        = mset q + mset (map (\<lambda>(s, f). Node s f Null Null) frequencies)" for q
    by (induction frequencies arbitrary: q) (auto simp: mset_pq_push)
  then show ?thesis by (simp add: seed_heap_def)
qed

lemma leaves_mset_seed:
  "leaves_mset (mset (map (\<lambda>(s, f). Node s f Null Null) frequencies)) = mset (map fst frequencies)"
  by (induction frequencies) auto

lemma buildHuffmanTree_tree:
  assumes "frequencies \<noteq> []"
  shows "\<exists>t. buildHuffmanTree frequencies = Inr t \<and> proper t
     \<and> mset (leaves t) = mset (map fst frequencies)
     \<and> (length frequencies > 1 \<longrightarrow> left t \<noteq> Null)"
proof -
  have ne: "seed_heap frequencies \<noteq> []"
    using assms length_seed_heap [of frequencies] by auto
  have "set (seed_heap frequencies) = set (map (\<lambda>(s, f). Node s f Null Null) frequencies)"
    using mset_seed_heap [of frequencies] by (metis set_mset_mset)
  then have "\<forall>t \<in> set (seed_heap frequencies). proper t"
    by auto
  with ne obtain t where t: "build_loop (seed_heap frequencies) = [t]" "proper t"
    "mset (leaves t) = leaves_mset (mset (seed_heap frequencies))"
    "length (seed_heap frequencies) > 1 \<longrightarrow> left t \<noteq> Null"
    using build_loop_tree by blast
  from t(3) have "mset (leaves t) = mset (map fst frequencies)"
    by (simp only: mset_seed_heap leaves_mset_seed)
  with t(1,2,4) show ?thesis
    by (simp add: buildHuffmanTree_def pq_top_def length_seed_heap)
qed

section \<open>The generated code table\<close>

text \<open>
  \<open>paths t str\<close> pairs each leaf with \<open>str\<close> followed by its path. When no leaf is the
  sample \<open>-1\<close>, \<open>generateCodes\<close> assigns exactly these pairs.
\<close>

lemma assign_all_Nil [simp]: "assign_all m [] = m"
  by (simp add: assign_all_def)

lemma assign_all_Cons [simp]: "assign_all m ((k, v) # es) = assign_all (map_assign k v m) es"
  by (simp add: assign_all_def)

lemma assign_all_append [simp]: "assign_all m (xs @ ys) = assign_all (assign_all m xs) ys"
  by (simp add: assign_all_def)

lemma sint_linear: "k \<noteq> k' \<Longrightarrow> \<not> sint k < sint k' \<Longrightarrow> sint k' < sint (k :: sample)"
  using signed_word_eqI [of k k', where 'a = int] by force

lemma keys_map_assign: "fst ` set (map_assign k v m) = insert k (fst ` set m)"
proof (induction m)
  case Nil
  then show ?case by simp
next
  case (Cons e m)
  obtain k' v' where e: "e = (k', v')" by (cases e)
  show ?case
    using Cons.IH by (simp add: e insert_commute)
qed

lemma smap_sorted_map_assign: "smap_sorted m \<Longrightarrow> smap_sorted (map_assign k v m)"
proof (induction m)
  case Nil
  then show ?case by (simp add: smap_sorted_def)
next
  case (Cons e m)
  obtain k' v' where e: "e = (k', v')" by (cases e)
  from Cons.prems have tl: "smap_sorted m" and hd: "\<forall>y \<in> set m. sint k' < sint (fst y)"
    by (simp_all add: smap_sorted_def e)
  show ?case
  proof (cases "k = k'")
    case True
    then show ?thesis using Cons.prems by (simp add: smap_sorted_def e)
  next
    case ne: False
    show ?thesis
    proof (cases "sint k < sint k'")
      case True
      then have "\<forall>y \<in> set m. sint k < sint (fst y)"
        using hd by fastforce
      then show ?thesis
        using True ne Cons.prems by (simp add: smap_sorted_def e)
    next
      case False
      then have lt: "sint k' < sint k"
        using ne by (simp add: sint_linear)
      have "\<forall>y \<in> set (map_assign k v m). sint k' < sint (fst y)"
      proof
        fix y assume "y \<in> set (map_assign k v m)"
        then have "fst y \<in> insert k (fst ` set m)"
          using keys_map_assign [of k v m] by auto
        then show "sint k' < sint (fst y)"
          using lt hd by auto
      qed
      then show ?thesis
        using False ne Cons.IH [OF tl] by (simp add: smap_sorted_def e)
    qed
  qed
qed

lemma smap_sorted_distinct: "smap_sorted m \<Longrightarrow> distinct (map fst m)"
proof (induction m)
  case Nil
  then show ?case by simp
next
  case (Cons e m)
  then have "\<forall>y \<in> set m. sint (fst e) < sint (fst y)" "smap_sorted m"
    by (simp_all add: smap_sorted_def)
  then show ?case
    using Cons.IH by force
qed

lemma smap_sorted_assign_all: "smap_sorted m \<Longrightarrow> smap_sorted (assign_all m es)"
proof (induction es arbitrary: m)
  case Nil
  then show ?case by simp
next
  case (Cons e es)
  obtain k v where e: "e = (k, v)" by (cases e)
  show ?case
    using Cons.prems by (simp add: e Cons.IH smap_sorted_map_assign)
qed

lemma keys_assign_all: "fst ` set (assign_all m es) = fst ` set m \<union> fst ` set es"
proof (induction es arbitrary: m)
  case Nil
  then show ?case by simp
next
  case (Cons e es)
  obtain k v where e: "e = (k, v)" by (cases e)
  have "fst ` set (assign_all (map_assign k v m) es)
        = fst ` set (map_assign k v m) \<union> fst ` set es"
    by (rule Cons.IH)
  then show ?case
    by (simp add: e keys_map_assign Un_commute insert_commute)
qed

lemma map_of_assign_all_other:
  "k \<notin> fst ` set es \<Longrightarrow> map_of (assign_all m es) k = map_of m k"
proof (induction es arbitrary: m)
  case Nil
  then show ?case by simp
next
  case (Cons e es)
  obtain k' v' where e: "e = (k', v')" by (cases e)
  from Cons.prems have "k \<noteq> k'" "k \<notin> fst ` set es"
    by (auto simp: e)
  then show ?case
    using Cons.IH [of "map_assign k' v' m"] by (simp add: e map_of_map_assign)
qed

lemma map_of_assign_all:
  "distinct (map fst es) \<Longrightarrow> (k, v) \<in> set es \<Longrightarrow> map_of (assign_all m es) k = Some v"
proof (induction es arbitrary: m)
  case Nil
  then show ?case by simp
next
  case (Cons e es)
  obtain k' v' where e: "e = (k', v')" by (cases e)
  show ?case
  proof (cases "(k, v) \<in> set es")
    case True
    then show ?thesis
      using Cons.prems Cons.IH by (simp add: e)
  next
    case False
    with Cons.prems have kv: "k' = k" "v' = v" and "k \<notin> fst ` set es"
      by (auto simp: e)
    then show ?thesis
      by (simp add: e map_of_assign_all_other map_of_map_assign)
  qed
qed

lemma assign_all_set:
  assumes "distinct (map fst es)"
  shows "set (assign_all [] es) = set es"
proof -
  have sorted: "distinct (map fst (assign_all [] es))"
    by (intro smap_sorted_distinct smap_sorted_assign_all) (simp add: smap_sorted_def)
  have "(k, v) \<in> set (assign_all [] es) \<longleftrightarrow> (k, v) \<in> set es" for k v
  proof
    assume "(k, v) \<in> set es"
    then have "map_of (assign_all [] es) k = Some v"
      using assms by (intro map_of_assign_all)
    then show "(k, v) \<in> set (assign_all [] es)"
      by (rule map_of_SomeD)
  next
    assume in_t: "(k, v) \<in> set (assign_all [] es)"
    then have "k \<in> fst ` set es"
      using keys_assign_all [of "[]" es] by force
    then obtain v' where v': "(k, v') \<in> set es" by auto
    then have "map_of (assign_all [] es) k = Some v'"
      using assms by (intro map_of_assign_all)
    moreover have "map_of (assign_all [] es) k = Some v"
      using sorted in_t by simp
    ultimately show "(k, v) \<in> set es" using v' by simp
  qed
  then show ?thesis by auto
qed

lemma fst_paths: "map fst (paths t str) = leaves t"
  by (induction t arbitrary: str) auto

lemma generateCodes_paths:
  "proper t \<Longrightarrow> - 1 \<notin> set (leaves t)
   \<Longrightarrow> generateCodes t str huffmanCodes = assign_all huffmanCodes (paths t str)"
proof (induction t arbitrary: str huffmanCodes)
  case Null
  then show ?case by simp
next
  case (Node s f l r)
  show ?case
  proof (cases "l = Null \<and> r = Null")
    case True
    then show ?thesis using Node.prems by simp
  next
    case False
    with Node.prems have p: "s = - 1" "proper l" "proper r"
      "- 1 \<notin> set (leaves l)" "- 1 \<notin> set (leaves r)"
      by auto
    have ps: "paths (Node s f l r) str = paths l (str @ ''0'') @ paths r (str @ ''1'')"
      using False by auto
    have "generateCodes (Node s f l r) str huffmanCodes
          = generateCodes r (str @ ''1'') (generateCodes l (str @ ''0'') huffmanCodes)"
      using p(1) by (simp add: Let_def)
    also have "\<dots> = assign_all (assign_all huffmanCodes (paths l (str @ ''0'')))
          (paths r (str @ ''1''))"
      using p by (simp add: Node.IH)
    finally show ?thesis
      unfolding ps by simp
  qed
qed

lemma paths_codes:
  "proper t \<Longrightarrow> (a, c) \<in> set (paths t str)
   \<Longrightarrow> \<exists>q. c = str @ q \<and> bitstring q \<and> (left t \<noteq> Null \<longrightarrow> q \<noteq> [])"
proof (induction t arbitrary: str)
  case Null
  then show ?case by simp
next
  case (Node s f l r)
  show ?case
  proof (cases "l = Null \<and> r = Null")
    case True
    then show ?thesis using Node.prems by simp
  next
    case False
    with Node.prems have p: "proper l" "proper r"
      and mem: "(a, c) \<in> set (paths l (str @ ''0'')) \<or> (a, c) \<in> set (paths r (str @ ''1''))"
      by auto
    from mem show ?thesis
    proof
      assume "(a, c) \<in> set (paths l (str @ ''0''))"
      then obtain q where "c = (str @ ''0'') @ q" "bitstring q"
        using Node.IH(1) [OF p(1)] by blast
      then show ?thesis
        by (intro exI [of _ "''0'' @ q"]) simp
    next
      assume "(a, c) \<in> set (paths r (str @ ''1''))"
      then obtain q where "c = (str @ ''1'') @ q" "bitstring q"
        using Node.IH(2) [OF p(2)] by blast
      then show ?thesis
        by (intro exI [of _ "''1'' @ q"]) simp
    qed
  qed
qed

lemma paths_prefix_free:
  "proper t \<Longrightarrow> distinct (leaves t) \<Longrightarrow> prefix_free (paths t str)"
proof (induction t arbitrary: str)
  case Null
  then show ?case by (simp add: prefix_free_def)
next
  case (Node s f l r)
  show ?case
  proof (cases "l = Null \<and> r = Null")
    case True
    then show ?thesis by (simp add: prefix_free_def)
  next
    case False
    with Node.prems have p: "proper l" "proper r" "distinct (leaves l)" "distinct (leaves r)"
      by auto
    have pl: "prefix_free (paths l (str @ ''0''))" and pr: "prefix_free (paths r (str @ ''1''))"
      using p Node.IH by simp_all
    have cross: "\<not> prefix ca cb \<and> \<not> prefix cb ca"
      if inl: "(a, ca) \<in> set (paths l (str @ ''0''))"
        and inr: "(b, cb) \<in> set (paths r (str @ ''1''))"
      for a ca b cb
    proof -
      obtain q where q: "ca = (str @ ''0'') @ q"
        using paths_codes [OF p(1) inl] by blast
      obtain q' where q': "cb = (str @ ''1'') @ q'"
        using paths_codes [OF p(2) inr] by blast
      show ?thesis unfolding q q' by simp
    qed
    show ?thesis
      unfolding prefix_free_def
    proof (intro ballI, clarify)
      fix a ca b cb
      assume a: "(a, ca) \<in> set (paths (Node s f l r) str)"
        and b: "(b, cb) \<in> set (paths (Node s f l r) str)"
        and ne: "a \<noteq> b" and pre: "prefix ca cb"
      from a False have a': "(a, ca) \<in> set (paths l (str @ ''0'')) \<or> (a, ca) \<in> set (paths r (str @ ''1''))"
        by auto
      from b False have b': "(b, cb) \<in> set (paths l (str @ ''0'')) \<or> (b, cb) \<in> set (paths r (str @ ''1''))"
        by auto
      from a' b' show False
      proof (elim disjE)
        assume "(a, ca) \<in> set (paths l (str @ ''0''))" "(b, cb) \<in> set (paths l (str @ ''0''))"
        then show False using pl ne pre by (auto simp: prefix_free_def)
      next
        assume "(a, ca) \<in> set (paths l (str @ ''0''))" "(b, cb) \<in> set (paths r (str @ ''1''))"
        then show False using cross pre by blast
      next
        assume "(a, ca) \<in> set (paths r (str @ ''1''))" "(b, cb) \<in> set (paths l (str @ ''0''))"
        then show False using cross pre by blast
      next
        assume "(a, ca) \<in> set (paths r (str @ ''1''))" "(b, cb) \<in> set (paths r (str @ ''1''))"
        then show False using pr ne pre by (auto simp: prefix_free_def)
      qed
    qed
  qed
qed

section \<open>Round trip on the inputs the encoder handles\<close>

text \<open>
  For a sample sequence with at least two distinct values, none of them \<open>-1\<close>, the encoder
  writes a file whose code table is decodable; if the encoded bits number fewer than
  \<open>2^32\<close> (the count field is a \<^verbatim>\<open>uint32_t\<close>), the decoder returns the header and the
  samples from that file, whatever a failed read leaves in \<open>c\<close>.
\<close>

lemma calculateFrequencies_props:
  "smap_sorted (calculateFrequencies audioData)
   \<and> fst ` set (calculateFrequencies audioData) = set audioData"
proof -
  have "smap_sorted (foldl (\<lambda>frequencies s. increment s frequencies) m audioData)
        \<and> fst ` set (foldl (\<lambda>frequencies s. increment s frequencies) m audioData)
            = fst ` set m \<union> set audioData"
    if "smap_sorted m" for m :: "int smap"
    using that
  proof (induction audioData arbitrary: m)
    case Nil
    then show ?case by simp
  next
    case (Cons s audioData)
    have "smap_sorted (increment s m)"
      using Cons.prems by (simp add: increment_def smap_sorted_map_assign)
    from Cons.IH [OF this] show ?case
      by (simp add: increment_def keys_map_assign)
  qed
  from this [of "[]"] show ?thesis
    by (simp add: calculateFrequencies_def smap_sorted_def)
qed

lemma two_keys_length:
  assumes "distinct (map fst m)" "a \<in> fst ` set m" "b \<in> fst ` set m" "a \<noteq> b"
  shows "length m > 1"
proof -
  have "card {a, b} \<le> card (set (map fst m))"
    using assms(2,3) by (intro card_mono) auto
  moreover have "card (set (map fst m)) = length m"
    using distinct_card [OF assms(1)] by simp
  ultimately show ?thesis
    using assms(4) by simp
qed

lemma smap_length_bound:
  assumes "distinct (map fst (m :: 'v smap))"
  shows "length m \<le> 65536"
proof -
  have "length m = card (set (map fst m))"
    using distinct_card [OF assms] by simp
  also have "\<dots> \<le> card (UNIV :: sample set)"
    by (intro card_mono) simp_all
  also have "\<dots> = 65536"
    by (simp add: card_word)
  finally show ?thesis .
qed

lemma enc_codes_table:
  assumes "- 1 \<notin> set audioData" "a \<in> set audioData" "b \<in> set audioData" "a \<noteq> b"
  shows "\<exists>tbl. enc_codes audioData = Inr tbl \<and> decodable tbl \<and> smap_sorted tbl
           \<and> fst ` set tbl = set audioData"
proof -
  let ?fs = "calculateFrequencies audioData"
  have fs: "smap_sorted ?fs" "fst ` set ?fs = set audioData"
    using calculateFrequencies_props by simp_all
  have dfs: "distinct (map fst ?fs)"
    using fs(1) by (rule smap_sorted_distinct)
  have len: "length ?fs > 1"
    using dfs assms(2-4) fs(2) by (intro two_keys_length [of ?fs a b]) simp_all
  then have "?fs \<noteq> []" by auto
  then obtain t where t: "buildHuffmanTree ?fs = Inr t" "proper t"
    "mset (leaves t) = mset (map fst ?fs)" "left t \<noteq> Null"
    using buildHuffmanTree_tree [of ?fs] len by blast
  have dl: "distinct (leaves t)"
    using t(3) dfs by (metis mset_eq_imp_distinct_iff)
  have sl: "set (leaves t) = set audioData"
    using t(3) fs(2) by (metis mset_eq_setD set_map)
  let ?tbl = "generateCodes t [] []"
  have gen: "?tbl = assign_all [] (paths t [])"
    using t(2) assms(1) sl by (intro generateCodes_paths) simp_all
  have dp: "distinct (map fst (paths t []))"
    using dl by (simp add: fst_paths)
  have set_tbl: "set ?tbl = set (paths t [])"
    unfolding gen using dp by (rule assign_all_set)
  have sorted: "smap_sorted ?tbl"
    unfolding gen by (intro smap_sorted_assign_all) (simp add: smap_sorted_def)
  have codes: "c \<noteq> [] \<and> bitstring c" if "(s, c) \<in> set ?tbl" for s c
    using paths_codes [OF t(2), of s c "[]"] that t(4) set_tbl by auto
  have pf: "prefix_free ?tbl"
    using paths_prefix_free [OF t(2) dl, of "[]"] set_tbl by (simp add: prefix_free_def)
  have "decodable ?tbl"
    unfolding decodable_def using sorted codes pf by (auto dest: smap_sorted_distinct)
  moreover have "fst ` set ?tbl = set audioData"
    using set_tbl sl fst_paths [of t "[]"] by (metis set_map)
  moreover have "enc_codes audioData = Inr ?tbl"
    using t(1) by (simp add: enc_codes_def)
  ultimately show ?thesis
    using sorted by blast
qed

lemma encodeAudioData_codewords:
  "set audioData \<subseteq> fst ` set tbl \<Longrightarrow> encodeAudioData audioData tbl = Inr (codewords tbl audioData)"
proof (induction audioData)
  case Nil
  then show ?case by simp
next
  case (Cons s audioData)
  then have "s \<in> fst ` set tbl" by simp
  then obtain c where "map_of tbl s = Some c"
    by (cases "map_of tbl s") (auto simp: map_of_eq_None_iff)
  then show ?case
    using Cons by (simp add: map_at_def)
qed

lemma bitstring_codewords:
  "decodable tbl \<Longrightarrow> set ks \<subseteq> fst ` set tbl \<Longrightarrow> bitstring (codewords tbl ks)"
proof (induction ks)
  case Nil
  then show ?case by simp
next
  case (Cons k ks)
  then have "(k, the (map_of tbl k)) \<in> set tbl"
    by (intro table_lookup) simp
  then have "bitstring (the (map_of tbl k))"
    using decodable_bitstring [OF Cons.prems(1)] by auto
  then show ?case
    using Cons by simp
qed

lemma map_assign_last:
  "smap_sorted (m @ [(k, v)]) \<Longrightarrow> map_assign k v m = m @ [(k, v)]"
proof (induction m)
  case Nil
  then show ?case by simp
next
  case (Cons e m)
  obtain k' v' where e: "e = (k', v')" by (cases e)
  from Cons.prems have "sint k' < sint k" "smap_sorted (m @ [(k, v)])"
    by (simp_all add: smap_sorted_def e)
  then show ?case
    using Cons.IH by (auto simp: e)
qed

lemma assign_all_sorted: "smap_sorted m \<Longrightarrow> assign_all [] m = m"
proof (induction m rule: rev_induct)
  case Nil
  then show ?case by simp
next
  case (snoc e m)
  obtain k v where e: "e = (k, v)" by (cases e)
  from snoc.prems have "smap_sorted m"
    by (simp add: smap_sorted_def sorted_wrt_append)
  then have "assign_all [] m = m" by (rule snoc.IH)
  then show ?case
    using snoc.prems by (simp add: e map_assign_last)
qed

lemma readHuffmanCodes_saved:
  assumes "smap_sorted tbl"
  shows "readHuffmanCodes (saveEncodedFile hdr encodedData tbl) = tbl"
proof -
  have "length tbl \<le> 65536"
    using assms by (intro smap_length_bound smap_sorted_distinct)
  then have "unat (of_nat (length tbl) :: 32 word) = length tbl"
    by (simp add: unat_of_nat)
  then have "readHuffmanCodes (saveEncodedFile hdr encodedData tbl) = assign_all [] tbl"
    by (simp add: readHuffmanCodes_def saveEncodedFile_def assign_all_def)
  then show ?thesis
    using assms by (simp add: assign_all_sorted)
qed

lemma readEncodedData_saved:
  assumes "bitstring encodedData" "length encodedData < 2 ^ 32"
  shows "readEncodedData junk (packBits encodedData) (of_nat (length encodedData)) = encodedData"
proof (rule unpack_agreeing_bytes)
  show "set encodedData \<subseteq> {CHR ''0'', CHR ''1''}"
    using assms(1) by (simp add: bitstring_def)
  show "length encodedData = unat (of_nat (length encodedData) :: 32 word)"
    using assms(2) by (simp add: unat_of_nat)
  show "length (packBits encodedData) = (length encodedData + 7) div 8"
    by (rule length_packBits)
  show "\<forall>i<length encodedData.
      bit (packBits encodedData ! (i div 8)) (i mod 8) = (encodedData ! i = CHR ''1'')"
    by (simp add: packBits_nth)
qed

theorem roundtrip_two_values_no_minus_one:
  assumes "- 1 \<notin> set audioData" and "a \<in> set audioData" and "b \<in> set audioData" and "a \<noteq> b"
  shows "\<exists>file. enc_main hdr audioData = Inr file
           \<and> decodable (file_codes file)
           \<and> (length (codewords (file_codes file) audioData) < 2 ^ 32
                \<longrightarrow> dec_main junk file = Inr (hdr, audioData))"
proof -
  obtain tbl where tbl: "enc_codes audioData = Inr tbl" "decodable tbl" "smap_sorted tbl"
    "fst ` set tbl = set audioData"
    using enc_codes_table [OF assms] by blast
  let ?bits = "codewords tbl audioData"
  let ?file = "saveEncodedFile hdr ?bits tbl"
  have keys: "set audioData \<subseteq> fst ` set tbl"
    using tbl(4) by simp
  have enc: "enc_main hdr audioData = Inr ?file"
    using tbl(1) keys by (simp add: enc_main_def encodeAudioData_codewords)
  have "dec_main junk ?file = Inr (hdr, audioData)" if small: "length ?bits < 2 ^ 32"
  proof -
    have codes: "readHuffmanCodes ?file = tbl"
      using tbl(3) by (rule readHuffmanCodes_saved)
    have "bitstring ?bits"
      using tbl(2) keys by (rule bitstring_codewords)
    then have bits: "readEncodedData junk (file_data ?file) (file_encodedDataSize ?file) = ?bits"
      using small by (simp add: saveEncodedFile_def readEncodedData_saved)
    have "decode_loop (?bits @ []) (dec_buildHuffmanTree tbl) (dec_buildHuffmanTree tbl) []
          = decode_loop [] (dec_buildHuffmanTree tbl) (dec_buildHuffmanTree tbl) ([] @ audioData)"
      using tbl(2) keys by (rule decode_codewords)
    then have "decodeAudioData ?bits (dec_buildHuffmanTree tbl) = Inr audioData"
      by (simp add: decodeAudioData_def)
    then show ?thesis
      by (simp add: dec_main_def codes bits Let_def) (simp add: saveEncodedFile_def)
  qed
  moreover have "file_codes ?file = tbl"
    by (simp add: saveEncodedFile_def)
  ultimately show ?thesis
    using enc tbl(2) by auto
qed

section \<open>The run on nodes in memory computes what the run on trees computes\<close>

text \<open>
  Whatever addresses a fresh allocator hands out, the queue of addresses stays in step
  with the queue of trees of \<open>buildHuffmanTree\<close>, the cells at the root form the tree it
  returns, \<open>generateCodes\<close> on the cells returns, and it returns the code table of that
  tree.
\<close>

lemma repr_cong:
  "repr m t p \<Longrightarrow> \<forall>a. cells m a \<noteq> None \<longrightarrow> cells m' a = cells m a \<Longrightarrow> repr m' t p"
proof (induction t arbitrary: p)
  case Null
  then show ?case by simp
next
  case (Node s f l r)
  from Node.prems(1) obtain a c where p: "p = Some a" and c: "cells m a = Some c"
    and fields: "cell_sample c = s" "cell_frequency c = f"
    and kids: "repr m l (cell_left c)" "repr m r (cell_right c)"
    by (auto split: option.splits)
  have "cells m' a = Some c"
    using Node.prems(2) c by auto
  moreover have "repr m' l (cell_left c)" "repr m' r (cell_right c)"
    using kids Node.IH Node.prems(2) by blast+
  ultimately show ?case
    using p fields by simp
qed

lemma ptr_generateCodes_repr:
  "repr m t p \<Longrightarrow> ptr_generateCodes m p str huffmanCodes = Some (generateCodes t str huffmanCodes)"
proof (induction t arbitrary: p str huffmanCodes)
  case Null
  then show ?case by (subst ptr_generateCodes.simps) simp
next
  case (Node s f l r)
  from Node.prems obtain a c where p: "p = Some a" and c: "cells m a = Some c"
    and fields: "cell_sample c = s" "cell_frequency c = f"
    and kids: "repr m l (cell_left c)" "repr m r (cell_right c)"
    by (auto split: option.splits)
  have d: "deref m a = c"
    by (simp add: deref_def c)
  show ?case
    by (subst ptr_generateCodes.simps)
       (simp add: p d fields Let_def Node.IH(1) [OF kids(1)] Node.IH(2) [OF kids(2)])
qed

lemma node_at_frequency: "node_at m a t \<Longrightarrow> cell_frequency (deref m a) = frequency t"
  by (cases t) (auto simp: node_at_def deref_def split: option.splits)

lemma node_at_Compare:
  "node_at m x tx \<Longrightarrow> node_at m y ty \<Longrightarrow> ptr_Compare m x y = Compare tx ty"
  by (simp add: ptr_Compare_def Compare_def node_at_frequency)

lemma queue_rel_length: "queue_rel m c ts \<Longrightarrow> length ts = length c"
  by (simp add: queue_rel_def list_all2_lengthD)

lemma queue_rel_nth: "queue_rel m c ts \<Longrightarrow> i < length c \<Longrightarrow> node_at m (c ! i) (ts ! i)"
  by (simp add: queue_rel_def list_all2_nthD)

lemma queue_rel_swap:
  assumes "queue_rel m c ts" "i < length c" "j < length c"
  shows "queue_rel m (swap c i j) (swap ts i j)"
proof -
  have "list_all2 (node_at m) (c[i := c ! j]) (ts[i := ts ! j])"
    using assms by (intro list_all2_update_cong) (simp_all add: queue_rel_def list_all2_nthD)
  then have "list_all2 (node_at m) (c[i := c ! j, j := c ! i]) (ts[i := ts ! j, j := ts ! i])"
    using assms by (intro list_all2_update_cong) (simp_all add: queue_rel_def list_all2_nthD)
  then show ?thesis
    by (simp add: queue_rel_def swap_def)
qed

lemma ptr_push_heap_loop_rel:
  "queue_rel m c ts \<Longrightarrow> h < length c
   \<Longrightarrow> queue_rel m (ptr_push_heap_loop m c h t) (push_heap_loop ts h t)"
proof (induction m c h t arbitrary: ts rule: ptr_push_heap_loop.induct)
  case (1 m c h t)
  let ?parent = "(h - 1) div 2"
  have p: "?parent < length c"
    using "1.prems"(2) by (simp add: less_imp_diff_less div_le_dividend le_less_trans)
  have cmp: "ptr_Compare m (c ! ?parent) (c ! h) = Compare (ts ! ?parent) (ts ! h)"
    using "1.prems" p by (intro node_at_Compare queue_rel_nth)
  show ?case
  proof (cases "h > t \<and> ptr_Compare m (c ! ?parent) (c ! h)")
    case True
    have "queue_rel m (ptr_push_heap_loop m (swap c h ?parent) ?parent t)
            (push_heap_loop (swap ts h ?parent) ?parent t)"
    proof (rule "1.IH" [OF refl True])
      show "queue_rel m (swap c h ?parent) (swap ts h ?parent)"
        using "1.prems" p by (intro queue_rel_swap)
      show "?parent < length (swap c h ?parent)"
        using p by simp
    qed
    moreover have "ptr_push_heap_loop m c h t = ptr_push_heap_loop m (swap c h ?parent) ?parent t"
      using True by (subst ptr_push_heap_loop.simps) (simp add: Let_def)
    moreover have "push_heap_loop ts h t = push_heap_loop (swap ts h ?parent) ?parent t"
      using True cmp by (subst push_heap_loop.simps) (simp add: Let_def)
    ultimately show ?thesis by simp
  next
    case False
    have "ptr_push_heap_loop m c h t = c"
      using False by (subst ptr_push_heap_loop.simps) (auto simp: Let_def)
    moreover have "push_heap_loop ts h t = ts"
      using False cmp by (subst push_heap_loop.simps) (auto simp: Let_def)
    ultimately show ?thesis using "1.prems"(1) by simp
  qed
qed

lemma ptr_adjust_heap_down_rel:
  "queue_rel m c ts \<Longrightarrow> n \<le> length c \<Longrightarrow> h < n
   \<Longrightarrow> queue_rel m (fst (ptr_adjust_heap_down m c h n)) (fst (adjust_heap_down ts h n))
       \<and> snd (ptr_adjust_heap_down m c h n) = snd (adjust_heap_down ts h n)"
proof (induction m c h n arbitrary: ts rule: ptr_adjust_heap_down.induct)
  case (1 m c h n)
  show ?case
  proof (cases "h < (n - 1) div 2")
    case True
    let ?sc = "2 * (h + 1)"
    let ?sc' = "if ptr_Compare m (c ! ?sc) (c ! (?sc - 1)) then ?sc - 1 else ?sc"
    let ?tc' = "if Compare (ts ! ?sc) (ts ! (?sc - 1)) then ?sc - 1 else ?sc"
    have sc: "?sc < n"
      using True by arith
    then have sc': "?sc' < n" by simp
    have "ptr_Compare m (c ! ?sc) (c ! (?sc - 1)) = Compare (ts ! ?sc) (ts ! (?sc - 1))"
      using "1.prems" sc by (intro node_at_Compare queue_rel_nth) simp_all
    then have same: "?tc' = ?sc'" by simp
    have "queue_rel m (fst (ptr_adjust_heap_down m (swap c h ?sc') ?sc' n))
            (fst (adjust_heap_down (swap ts h ?sc') ?sc' n))
          \<and> snd (ptr_adjust_heap_down m (swap c h ?sc') ?sc' n)
            = snd (adjust_heap_down (swap ts h ?sc') ?sc' n)"
    proof (rule "1.IH" [OF True refl refl])
      show "queue_rel m (swap c h ?sc') (swap ts h ?sc')"
        using "1.prems" sc' by (intro queue_rel_swap) simp_all
      show "n \<le> length (swap c h ?sc')" using "1.prems" by simp
      show "?sc' < n" by (rule sc')
    qed
    moreover have "ptr_adjust_heap_down m c h n = ptr_adjust_heap_down m (swap c h ?sc') ?sc' n"
      using True by (subst ptr_adjust_heap_down.simps) (simp add: Let_def)
    moreover have "adjust_heap_down ts h n = adjust_heap_down (swap ts h ?tc') ?tc' n"
      using True by (subst adjust_heap_down.simps) (simp add: Let_def)
    ultimately show ?thesis
      unfolding same by simp
  next
    case False
    have "ptr_adjust_heap_down m c h n = (c, h)"
      using False by (subst ptr_adjust_heap_down.simps) simp
    moreover have "adjust_heap_down ts h n = (ts, h)"
      using False by (subst adjust_heap_down.simps) simp
    ultimately show ?thesis using "1.prems"(1) by simp
  qed
qed

lemma ptr_adjust_heap_rel:
  assumes "queue_rel m c ts" "n \<le> length c" "0 < n"
  shows "queue_rel m (ptr_adjust_heap m c 0 n) (adjust_heap ts 0 n)"
proof -
  obtain c1 h1 where a: "ptr_adjust_heap_down m c 0 n = (c1, h1)"
    by (cases "ptr_adjust_heap_down m c 0 n")
  obtain ts1 k1 where b: "adjust_heap_down ts 0 n = (ts1, k1)"
    by (cases "adjust_heap_down ts 0 n")
  have rel: "queue_rel m c1 ts1" and same: "k1 = h1"
    using ptr_adjust_heap_down_rel [OF assms] a b by simp_all
  have len: "length c1 = length c"
    using length_ptr_adjust_heap_down [of m c 0 n] a by simp
  have h1: "h1 < n"
    using adjust_heap_down_props [of n ts 0] assms queue_rel_length [OF assms(1)] b same
    by simp
  show ?thesis
  proof (cases "even n \<and> h1 = (n - 2) div 2")
    case True
    then obtain k where k: "n = 2 * k" by (auto elim: evenE)
    with assms(3) have "0 < k" by simp
    then have i: "2 * (h1 + 1) - 1 < n" using True k by (cases k) auto
    have "queue_rel m (swap c1 h1 (2 * (h1 + 1) - 1)) (swap ts1 h1 (2 * (h1 + 1) - 1))"
      using rel h1 i assms(2) len by (intro queue_rel_swap) simp_all
    then have "queue_rel m (ptr_push_heap_loop m (swap c1 h1 (2 * (h1 + 1) - 1)) (2 * (h1 + 1) - 1) 0)
        (push_heap_loop (swap ts1 h1 (2 * (h1 + 1) - 1)) (2 * (h1 + 1) - 1) 0)"
      using i assms(2) len by (intro ptr_push_heap_loop_rel) simp_all
    then show ?thesis
      using True by (simp add: ptr_adjust_heap_def adjust_heap_def a b same)
  next
    case False
    have "queue_rel m (ptr_push_heap_loop m c1 h1 0) (push_heap_loop ts1 h1 0)"
      using rel h1 assms(2) len by (intro ptr_push_heap_loop_rel) simp_all
    then show ?thesis
      using False by (auto simp: ptr_adjust_heap_def adjust_heap_def a b same)
  qed
qed

lemma ptr_pq_push_rel:
  assumes "queue_rel m c ts" "node_at m x t"
  shows "queue_rel m (ptr_pq_push m x c) (pq_push t ts)"
proof -
  have "queue_rel m (c @ [x]) (ts @ [t])"
    using assms by (simp add: queue_rel_def list_all2_appendI)
  then have "queue_rel m (ptr_push_heap_loop m (c @ [x]) (length c) 0)
      (push_heap_loop (ts @ [t]) (length c) 0)"
    by (intro ptr_push_heap_loop_rel) simp_all
  then show ?thesis
    using queue_rel_length [OF assms(1)] by (simp add: ptr_pq_push_def pq_push_def)
qed

lemma ptr_pq_pop_rel:
  assumes "queue_rel m c ts"
  shows "queue_rel m (ptr_pq_pop m c) (pq_pop ts)"
proof -
  have len: "length ts = length c"
    using assms by (rule queue_rel_length)
  have bl: "queue_rel m (butlast c) (butlast ts)"
    using assms len by (simp add: queue_rel_def butlast_conv_take list_all2_takeI)
  show ?thesis
  proof (cases "length c > 1")
    case True
    then have ne: "c \<noteq> []" "ts \<noteq> []" using len by auto
    have "node_at m (c ! (length c - 1)) (ts ! (length c - 1))"
      using assms True by (intro queue_rel_nth) simp_all
    then have last: "node_at m (last c) (last ts)"
      using ne len by (simp add: last_conv_nth)
    have "queue_rel m ((butlast c)[0 := last c]) ((butlast ts)[0 := last ts])"
      using bl last unfolding queue_rel_def by (intro list_all2_update_cong)
    then have "queue_rel m (ptr_adjust_heap m ((butlast c)[0 := last c]) 0 (length c - 1))
        (adjust_heap ((butlast ts)[0 := last ts]) 0 (length c - 1))"
      using True by (intro ptr_adjust_heap_rel) simp_all
    then show ?thesis
      using True len by (simp add: ptr_pq_pop_def pq_pop_def)
  next
    case False
    then show ?thesis
      using bl len by (simp add: ptr_pq_pop_def pq_pop_def)
  qed
qed

lemma queue_rel_cong:
  assumes "queue_rel m c ts" "\<forall>a. cells m a \<noteq> None \<longrightarrow> cells m' a = cells m a"
  shows "queue_rel m' c ts"
proof -
  have "node_at m' a t" if "node_at m a t" for a t
    using that assms(2) by (auto simp: node_at_def intro: repr_cong)
  then show ?thesis
    using assms(1) unfolding queue_rel_def by (rule list_all2_mono [rotated])
qed

lemma fresh_unused: "fresh alloc \<Longrightarrow> tracked m \<Longrightarrow> cells m (alloc (allocated m)) = None"
  by (auto simp: fresh_def tracked_def)

lemma new_leaf:
  assumes "fresh alloc" "tracked m" "new_HuffmanNode alloc s f m = (a, m1)"
  shows "tracked m1 \<and> node_at m1 a (Node s f Null Null)
         \<and> (\<forall>b. cells m b \<noteq> None \<longrightarrow> cells m1 b = cells m b)"
proof -
  have a: "a = alloc (allocated m)"
    and m1: "m1 = \<lparr>cells = (cells m)(a \<mapsto> Cell s f None None), allocated = a # allocated m\<rparr>"
    using assms(3) by (auto simp: new_HuffmanNode_def Let_def)
  have unused: "cells m a = None"
    unfolding a using assms(1,2) by (rule fresh_unused)
  have "tracked m1"
    using assms(2) by (auto simp: tracked_def m1)
  moreover have "node_at m1 a (Node s f Null Null)"
    by (simp add: node_at_def m1)
  moreover have "\<forall>b. cells m b \<noteq> None \<longrightarrow> cells m1 b = cells m b"
    using unused by (auto simp: m1)
  ultimately show ?thesis by simp
qed

lemma new_combined:
  assumes "fresh alloc" "tracked m" "node_at m l lt" "node_at m r rt"
    and "new_HuffmanNode alloc (- 1) (cell_frequency (deref m l) + cell_frequency (deref m r)) m
         = (a, m1)"
    and "m2 = set_children a (Some l) (Some r) m1"
  shows "tracked m2 \<and> node_at m2 a (Node (- 1) (frequency lt + frequency rt) lt rt)
         \<and> (\<forall>b. cells m b \<noteq> None \<longrightarrow> cells m2 b = cells m b)"
proof -
  let ?f = "frequency lt + frequency rt"
  have f: "cell_frequency (deref m l) + cell_frequency (deref m r) = ?f"
    using assms(3,4) by (simp add: node_at_frequency)
  have a: "a = alloc (allocated m)"
    and m1: "m1 = \<lparr>cells = (cells m)(a \<mapsto> Cell (- 1) ?f None None), allocated = a # allocated m\<rparr>"
    using assms(5) unfolding f by (auto simp: new_HuffmanNode_def Let_def)
  have unused: "cells m a = None"
    unfolding a using assms(1,2) by (rule fresh_unused)
  have m2: "m2 = \<lparr>cells = (cells m)(a \<mapsto> Cell (- 1) ?f (Some l) (Some r)),
                  allocated = a # allocated m\<rparr>"
    by (simp add: assms(6) set_children_def m1 deref_def)
  have keep: "\<forall>b. cells m b \<noteq> None \<longrightarrow> cells m2 b = cells m b"
    using unused by (auto simp: m2)
  have "tracked m2"
    using assms(2) by (auto simp: tracked_def m2)
  moreover have "repr m2 lt (Some l)" "repr m2 rt (Some r)"
    using assms(3,4) keep by (auto simp: node_at_def intro: repr_cong)
  then have "node_at m2 a (Node (- 1) ?f lt rt)"
    by (simp add: node_at_def m2)
  ultimately show ?thesis
    using keep by simp
qed

lemma ptr_build_loop_rel:
  "fresh alloc \<Longrightarrow> tracked m \<Longrightarrow> queue_rel m c ts
   \<Longrightarrow> \<exists>m' c'. ptr_build_loop alloc m c = (m', c') \<and> queue_rel m' c' (build_loop ts)"
proof (induction alloc m c arbitrary: ts rule: ptr_build_loop.induct)
  case (1 alloc m c)
  have len: "length ts = length c"
    using "1.prems"(3) by (rule queue_rel_length)
  show ?case
  proof (cases "length c > 1")
    case True
    let ?left = "hd c"
    let ?c1 = "ptr_pq_pop m c"
    let ?right = "hd ?c1"
    let ?c2 = "ptr_pq_pop m ?c1"
    let ?tl = "hd ts"
    let ?ts1 = "pq_pop ts"
    let ?tr = "hd ?ts1"
    let ?ts2 = "pq_pop ?ts1"
    let ?comb = "Node (- 1) (frequency ?tl + frequency ?tr) ?tl ?tr"
    obtain a m1 where new: "new_HuffmanNode alloc (- 1)
        (cell_frequency (deref m ?left) + cell_frequency (deref m ?right)) m = (a, m1)"
      by (cases "new_HuffmanNode alloc (- 1)
        (cell_frequency (deref m ?left) + cell_frequency (deref m ?right)) m")
    define m2 where "m2 = set_children a (Some ?left) (Some ?right) m1"
    have r1: "queue_rel m ?c1 ?ts1"
      using "1.prems"(3) by (rule ptr_pq_pop_rel)
    have r2: "queue_rel m ?c2 ?ts2"
      using r1 by (rule ptr_pq_pop_rel)
    have l0: "0 < length c" using True by auto
    have "node_at m (c ! 0) (ts ! 0)"
      using "1.prems"(3) l0 by (rule queue_rel_nth)
    moreover have "c \<noteq> []" "ts \<noteq> []"
      using l0 len by auto
    ultimately have nl: "node_at m ?left ?tl"
      by (simp add: hd_conv_nth)
    have l1: "0 < length ?c1" using True by (simp del: length_greater_0_conv)
    have "node_at m (?c1 ! 0) (?ts1 ! 0)"
      using r1 l1 by (rule queue_rel_nth)
    moreover have "0 < length ?ts1"
      using l1 queue_rel_length [OF r1] by (simp only:)
    then have "?c1 \<noteq> []" "?ts1 \<noteq> []"
      using l1 by (auto simp del: length_pq_pop length_ptr_pq_pop)
    ultimately have nr: "node_at m ?right ?tr"
      by (simp add: hd_conv_nth)
    have comb: "tracked m2" "node_at m2 a ?comb"
      "\<forall>b. cells m b \<noteq> None \<longrightarrow> cells m2 b = cells m b"
      using new_combined [OF "1.prems"(1,2) nl nr new m2_def] by simp_all
    have "queue_rel m2 ?c2 ?ts2"
      using r2 comb(3) by (rule queue_rel_cong)
    then have r3: "queue_rel m2 (ptr_pq_push m2 a ?c2) (pq_push ?comb ?ts2)"
      using comb(2) by (rule ptr_pq_push_rel)
    have "\<exists>m' c'. ptr_build_loop alloc m2 (ptr_pq_push m2 a ?c2) = (m', c')
        \<and> queue_rel m' c' (build_loop (pq_push ?comb ?ts2))"
      using "1.prems"(1) comb(1) r3
      by (rule "1.IH" [OF True refl refl refl refl refl new [symmetric] m2_def])
    moreover have "ptr_build_loop alloc m c = ptr_build_loop alloc m2 (ptr_pq_push m2 a ?c2)"
      using True by (subst ptr_build_loop.simps) (simp add: Let_def new m2_def)
    moreover have "build_loop ts = build_loop (pq_push ?comb ?ts2)"
      using True len by (subst build_loop.simps) (simp add: Let_def)
    ultimately show ?thesis by simp
  next
    case False
    have "ptr_build_loop alloc m c = (m, c)"
      using False by (subst ptr_build_loop.simps) simp
    moreover have "build_loop ts = ts"
      using False len by (subst build_loop.simps) simp
    ultimately show ?thesis using "1.prems"(3) by simp
  qed
qed

lemma ptr_seed_heap_rel:
  assumes "fresh alloc"
  shows "\<exists>m c. ptr_seed_heap alloc frequencies = (m, c) \<and> tracked m
           \<and> queue_rel m c (seed_heap frequencies)"
proof -
  let ?pstep = "\<lambda>(m, minHeap) (s, f).
      (let (a, m1) = new_HuffmanNode alloc s f m in (m1, ptr_pq_push m1 a minHeap))"
  let ?step = "\<lambda>minHeap (s, f). pq_push (Node s f Null Null) minHeap"
  have "\<exists>m' c'. foldl ?pstep (m, c) frequencies = (m', c') \<and> tracked m'
           \<and> queue_rel m' c' (foldl ?step ts frequencies)"
    if "tracked m" "queue_rel m c ts" for m c ts
    using that
  proof (induction frequencies arbitrary: m c ts)
    case Nil
    then show ?case by simp
  next
    case (Cons e frequencies)
    obtain s f where e: "e = (s, f)" by (cases e)
    obtain a m1 where new: "new_HuffmanNode alloc s f m = (a, m1)"
      by (cases "new_HuffmanNode alloc s f m")
    have leaf: "tracked m1" "node_at m1 a (Node s f Null Null)"
      "\<forall>b. cells m b \<noteq> None \<longrightarrow> cells m1 b = cells m b"
      using new_leaf [OF assms Cons.prems(1) new] by simp_all
    have "queue_rel m1 c ts"
      using Cons.prems(2) leaf(3) by (rule queue_rel_cong)
    then have "queue_rel m1 (ptr_pq_push m1 a c) (pq_push (Node s f Null Null) ts)"
      using leaf(2) by (rule ptr_pq_push_rel)
    from Cons.IH [OF leaf(1) this] show ?case
      by (simp add: e new)
  qed
  from this [of empty_memory "[]" "[]"] show ?thesis
    by (simp add: ptr_seed_heap_def seed_heap_def tracked_def empty_memory_def queue_rel_def)
qed

lemma ptr_buildHuffmanTree_rel:
  assumes "fresh alloc"
  shows "(case buildHuffmanTree frequencies of
            Inl e \<Rightarrow> ptr_buildHuffmanTree alloc frequencies = Inl e
          | Inr t \<Rightarrow> \<exists>m root. ptr_buildHuffmanTree alloc frequencies = Inr (m, root)
                       \<and> repr m t (Some root))"
proof -
  obtain m0 c0 where seed: "ptr_seed_heap alloc frequencies = (m0, c0)" "tracked m0"
    "queue_rel m0 c0 (seed_heap frequencies)"
    using ptr_seed_heap_rel [OF assms] by blast
  obtain m c where loop: "ptr_build_loop alloc m0 c0 = (m, c)"
    "queue_rel m c (build_loop (seed_heap frequencies))"
    using ptr_build_loop_rel [OF assms seed(2,3)] by blast
  show ?thesis
  proof (cases "build_loop (seed_heap frequencies)")
    case Nil
    then have "c = []"
      using loop(2) by (simp add: queue_rel_def)
    then show ?thesis
      using Nil by (simp add: buildHuffmanTree_def pq_top_def ptr_buildHuffmanTree_def seed loop)
  next
    case (Cons t ts)
    then obtain root rest where c: "c = root # rest" and "node_at m root t"
      using loop(2) by (auto simp: queue_rel_def list_all2_Cons2)
    then show ?thesis
      using Cons
      by (simp add: buildHuffmanTree_def pq_top_def ptr_buildHuffmanTree_def seed loop
          node_at_def)
  qed
qed

lemma ptr_enc_main_refines:
  assumes "fresh alloc"
  shows "ptr_enc_main alloc hdr audioData = Some (enc_main hdr audioData)"
proof (cases "buildHuffmanTree (calculateFrequencies audioData)")
  case (Inl e)
  then have "ptr_buildHuffmanTree alloc (calculateFrequencies audioData) = Inl e"
    using ptr_buildHuffmanTree_rel [OF assms, of "calculateFrequencies audioData"] by simp
  then show ?thesis
    using Inl by (simp add: ptr_enc_main_def enc_main_def enc_codes_def)
next
  case (Inr t)
  then obtain m root where
    built: "ptr_buildHuffmanTree alloc (calculateFrequencies audioData) = Inr (m, root)"
    and r: "repr m t (Some root)"
    using ptr_buildHuffmanTree_rel [OF assms, of "calculateFrequencies audioData"] by auto
  have "ptr_generateCodes m (Some root) [] [] = Some (generateCodes t [] [])"
    using r by (rule ptr_generateCodes_repr)
  then show ?thesis
    using Inr built
    by (simp add: ptr_enc_main_def enc_main_def enc_codes_def split: sum.splits)
qed

lemma fresh_bump_allocator: "fresh bump_allocator"
  unfolding fresh_def bump_allocator_def
proof
  fix live :: "addr list"
  have "a \<le> sum_list live" if "a \<in> set live" for a
    using that by (induction live) auto
  then show "Suc (sum_list live) \<notin> set live"
    by fastforce
qed

lemma fresh_sparse_allocator: "fresh sparse_allocator"
  unfolding fresh_def sparse_allocator_def
proof
  fix live :: "addr list"
  have "a \<le> sum_list live" if "a \<in> set live" for a
    using that by (induction live) auto
  then show "3 * sum_list live + 16 \<notin> set live"
    by fastforce
qed

section \<open>A single distinct value\<close>

text \<open>
  For every sequence that repeats one value other than \<open>-1\<close>, the encoder writes the
  table with the empty code and zero bits, and the decoder returns the empty sequence
  from that file.
\<close>

lemma calculateFrequencies_replicate:
  "calculateFrequencies (replicate (Suc n) v) = [(v, int (Suc n))]"
proof -
  have "foldl (\<lambda>frequencies s. increment s frequencies) [(v, k)] (replicate m v)
        = [(v, k + int m)]" for k m
    by (induction m arbitrary: k) (simp_all add: increment_def)
  from this [of 1 n] show ?thesis
    by (simp add: calculateFrequencies_def increment_def)
qed

lemma buildHuffmanTree_single: "buildHuffmanTree [(v, k)] = Inr (Node v k Null Null)"
proof -
  have "seed_heap [(v, k)] = [Node v k Null Null]"
    by (simp add: seed_heap_def pq_push_def push_heap_loop.simps [of _ 0])
  moreover have "build_loop [t] = [t]" for t
    by (subst build_loop.simps) simp
  ultimately show ?thesis
    by (simp add: buildHuffmanTree_def pq_top_def)
qed

lemma encodeAudioData_replicate: "encodeAudioData (replicate n v) [(v, [])] = Inr []"
  by (induction n) (simp_all add: map_at_def)

lemma single_value_sequence_decodes_to_nothing:
  assumes "v \<noteq> - 1"
  shows "enc_main hdr (replicate (Suc n) v) =
           Inr \<lparr>file_header = hdr, file_huffmanCodeCount = 1, file_codes = [(v, [])],
                file_encodedDataSize = 0, file_data = []\<rparr>
       \<and> dec_main junk
           \<lparr>file_header = hdr, file_huffmanCodeCount = 1, file_codes = [(v, [])],
            file_encodedDataSize = 0, file_data = []\<rparr> = Inr (hdr, [])"
proof -
  have "enc_codes (replicate (Suc n) v) = Inr [(v, [])]"
    using assms
    by (simp add: enc_codes_def calculateFrequencies_replicate buildHuffmanTree_single
        del: replicate.simps)
  then have "enc_main hdr (replicate (Suc n) v) =
           Inr \<lparr>file_header = hdr, file_huffmanCodeCount = 1, file_codes = [(v, [])],
                file_encodedDataSize = 0, file_data = []\<rparr>"
    by (simp add: enc_main_def encodeAudioData_replicate saveEncodedFile_def packBits_def
        del: replicate.simps)
  moreover have "dec_main junk
           \<lparr>file_header = hdr, file_huffmanCodeCount = 1, file_codes = [(v, [])],
            file_encodedDataSize = 0, file_data = []\<rparr> = Inr (hdr, [])"
    by (simp add: dec_main_def readHuffmanCodes_def readEncodedData_def
        dec_buildHuffmanTree_def new_node_def decodeAudioData_def)
  ultimately show ?thesis by simp
qed

section \<open>Inputs on which the encoder does not produce a decodable file\<close>

text \<open>
  C3 says that encoding the empty sample sequence gives an empty code table and a bit count
  of zero, which decode to the empty sequence. The encoder does not get that far: the
  frequency table is empty, the priority queue stays empty, the loop of
  \<open>buildHuffmanTree\<close> is skipped and \<^verbatim>\<open>minHeap.top()\<close> is evaluated on an empty queue. No
  tree is returned, so no code table and no bit count are produced.
\<close>

theorem empty_input_reads_empty_queue:
  "calculateFrequencies [] = []
   \<and> seed_heap [] = []
   \<and> buildHuffmanTree [] = Inl TopOfEmptyQueue
   \<and> enc_main [] [] = Inl TopOfEmptyQueue"
  by code_simp

text \<open>
  C2 says that for a sequence with one distinct value the builder puts an internal node
  above the single leaf, so that the code has length at least 1 and the sequence
  round-trips. For the sequence \<open>[5]\<close> the builder returns the bare leaf, with no internal
  node above it; the code of 5 is the empty string, zero bits are written, and the decoder
  returns no samples at all from the encoder's output.
\<close>

theorem singleton_tree_is_bare_leaf:
  "buildHuffmanTree (calculateFrequencies [5]) = Inr (Node 5 1 Null Null)
   \<and> enc_codes [5] = Inr [(5, [])]
   \<and> enc_main [] [5] =
       Inr \<lparr>file_header = [], file_huffmanCodeCount = 1, file_codes = [(5, [])],
            file_encodedDataSize = 0, file_data = []\<rparr>
   \<and> dec_main zero_junk
         \<lparr>file_header = [], file_huffmanCodeCount = 1, file_codes = [(5, [])],
          file_encodedDataSize = 0, file_data = []\<rparr> = Inr ([], [])"
  by code_simp

text \<open>
  C1 says that every non-empty sample sequence is returned by decoding its encoding. The
  sequence \<open>[0, -1]\<close> is not encoded at all: the leaf of the sample \<open>-1\<close> gets no code, and
  \<open>encodeAudioData\<close> raises at the lookup. The sequence \<open>[7, 7]\<close> is encoded to zero bits
  and decoded to the empty sequence. On the other inputs the round trip holds
  (\<open>roundtrip_two_values_no_minus_one\<close>).
\<close>

theorem roundtrip_fails_on_minus_one:
  "enc_codes [0, - 1] = Inr [(0, ''1'')]
   \<and> enc_main [] [0, - 1] = Inl OutOfRange
   \<and> enc_main [] [7, 7] =
       Inr \<lparr>file_header = [], file_huffmanCodeCount = 1, file_codes = [(7, [])],
            file_encodedDataSize = 0, file_data = []\<rparr>
   \<and> dec_main zero_junk
         \<lparr>file_header = [], file_huffmanCodeCount = 1, file_codes = [(7, [])],
          file_encodedDataSize = 0, file_data = []\<rparr> = Inr ([], [])"
  by code_simp

text \<open>
  C5 says that in every generated code table no code is a prefix of another and every code
  is non-empty. From the frequency table with the single entry \<open>7 \<mapsto> 3\<close> the generated
  code table maps 7 to the empty code.
\<close>

theorem single_entry_table_has_empty_code:
  "buildHuffmanTree [(7, 3)] = Inr (Node 7 3 Null Null)
   \<and> generateCodes (Node 7 3 Null Null) [] [] = [(7, [])]"
  by code_simp

text \<open>
  C10 says that for every non-empty frequency table the generated code table gives a total
  encoded length, the sum over the samples of frequency times code length, that no valid
  prefix code for the table undercuts. From the frequency table \<open>-1 \<mapsto> 1, 0 \<mapsto> 2\<close>
  (that of the sequence \<open>[-1, 0, 0]\<close>) the generated code table has a code for 0 only, so
  it assigns no code length to the sample \<open>-1\<close> and is not a prefix code for this table;
  the lookup of \<open>-1\<close> raises, and the sequence has no encoding whose length could be
  compared.
\<close>

theorem generated_table_misses_minus_one:
  "calculateFrequencies [- 1, 0, 0] = [(- 1, 1), (0, 2)]
   \<and> buildHuffmanTree [(- 1, 1), (0, 2)] =
     Inr (Node (- 1) 3 (Node (- 1) 1 Null Null) (Node 0 2 Null Null))
   \<and> generateCodes (Node (- 1) 3 (Node (- 1) 1 Null Null) (Node 0 2 Null Null)) [] []
       = [(0, ''1'')]
   \<and> map_at [(0, ''1'')] (- 1) = Inl OutOfRange
   \<and> encodeAudioData [- 1, 0, 0] [(0, ''1'')] = Inl OutOfRange"
  by code_simp

section \<open>The sample \<open>-1\<close>\<close>

text \<open>
  C4. Whenever the input contains the sample \<open>-1\<close> (in particular together with other
  values), the encoder builds a code table, that table has no entry for \<open>-1\<close>, the lookup
  \<^verbatim>\<open>huffmanCodes.at(-1)\<close> raises, and so do \<open>encodeAudioData\<close> and the whole run.
  \<open>generateCodes\<close> never assigns the key \<open>-1\<close>, whatever the tree
  (\<open>generateCodes_minus_one\<close>).
\<close>

theorem minus_one_has_no_code:
  assumes "- 1 \<in> set audioData"
  shows "\<exists>huffmanCodes. enc_codes audioData = Inr huffmanCodes
           \<and> map_of huffmanCodes (- 1) = None
           \<and> map_at huffmanCodes (- 1) = Inl OutOfRange
           \<and> encodeAudioData audioData huffmanCodes = Inl OutOfRange
           \<and> enc_main hdr audioData = Inl OutOfRange"
proof -
  from assms have "audioData \<noteq> []" by auto
  then obtain t where t: "enc_codes audioData = Inr (generateCodes t [] [])"
    using enc_codes_returns by blast
  let ?hc = "generateCodes t [] []"
  have none: "map_of ?hc (- 1) = None"
    by (simp add: generateCodes_minus_one)
  have enc: "encodeAudioData audioData ?hc = Inl OutOfRange"
    using assms none by (rule encodeAudioData_missing)
  show ?thesis
    using t none enc by (simp add: map_at_def enc_main_def)
qed

theorem minus_one_has_no_code_witness:
  "(- 1 :: sample) \<in> set [3, - 1, 3]
   \<and> enc_codes [3, - 1, 3] = Inr [(3, ''1'')]
   \<and> map_at [(3, ''1'')] (- 1) = Inl OutOfRange
   \<and> encodeAudioData [3, - 1, 3] [(3, ''1'')] = Inl OutOfRange
   \<and> enc_main [] [3, - 1, 3] = Inl OutOfRange"
proof -
  have h: "(- 1 :: sample) \<in> set [3, - 1, 3]" by simp
  have c: "enc_codes [3, - 1, 3] = Inr [(3, ''1'')]" by code_simp
  show ?thesis
    using minus_one_has_no_code [OF h, of "[]"] c h by auto
qed

section \<open>Bit packing\<close>

text \<open>
  C7 as stated fails for a bit string of \<open>2^32\<close> bits, which the encoder packs like any
  other (into \<open>2^29\<close> bytes): the count it writes is the length modulo \<open>2^32\<close>, here 0, the
  decoder then returns the empty string, and no value of the 32-bit count makes
  \<open>readEncodedData\<close> return the string.
\<close>

theorem long_bit_string_is_not_recovered:
  "length (replicate (2 ^ 32) (CHR ''0'')) = 2 ^ 32
   \<and> length (packBits (replicate (2 ^ 32) (CHR ''0''))) = 2 ^ 29
   \<and> file_encodedDataSize (saveEncodedFile [] (replicate (2 ^ 32) (CHR ''0'')) []) = 0
   \<and> readEncodedData zero_junk (packBits (replicate (2 ^ 32) (CHR ''0''))) 0 = []
   \<and> \<not> (\<exists>N. readEncodedData zero_junk (packBits (replicate (2 ^ 32) (CHR ''0''))) N
            = replicate (2 ^ 32) (CHR ''0''))"
proof -
  let ?bits = "replicate (2 ^ 32) (CHR ''0'')"
  have len: "length ?bits = 2 ^ 32"
    by (rule length_replicate)
  have "(2 ^ 32 + 7) div 8 = (2 ^ 29 :: nat)"
    by simp
  then have packed: "length (packBits ?bits) = 2 ^ 29"
    by (simp only: length_packBits len)
  have "(of_nat (2 ^ 32) :: 32 word) = 0"
    by simp
  then have count: "file_encodedDataSize (saveEncodedFile [] ?bits []) = 0"
    by (simp only: saveEncodedFile_def len EncodedFile.simps)
  have read: "readEncodedData zero_junk bytes 0 = []" for bytes
    by (simp add: readEncodedData_def)
  have none: "\<not> (\<exists>N. readEncodedData zero_junk (packBits ?bits) N = ?bits)"
  proof
    assume "\<exists>N. readEncodedData zero_junk (packBits ?bits) N = ?bits"
    then obtain N where "readEncodedData zero_junk (packBits ?bits) N = ?bits" ..
    moreover have "2 ^ 32 \<le> length ?bits"
      by (simp only: len)
    ultimately show False
      using readEncodedData_short by blast
  qed
  from len packed count read [of "packBits ?bits"] none show ?thesis
    by (intro conjI)
qed

text \<open>
  C7, as amended. For every bit string, of any length: the encoder writes
  \<open>(N + 7) div 8\<close> bytes and logical bit \<open>i\<close> is bit \<open>i mod 8\<close> of byte \<open>i div 8\<close>. If the
  string consists of the characters \<open>0\<close> and \<open>1\<close> and has fewer than \<open>2^32\<close> bits, then
  \<open>readEncodedData\<close>, given its length as the count, returns the original string from the
  packed bytes, and from any bytes that agree with them on the first \<open>N\<close> bits, so the
  padding bits of the last byte are never looked at. This holds whatever value a failed
  read leaves in \<open>c\<close>.
\<close>

theorem pack_unpack_bits:
  "length (packBits bits) = (length bits + 7) div 8
   \<and> (\<forall>i<length bits. bit (packBits bits ! (i div 8)) (i mod 8) = (bits ! i = CHR ''1''))
   \<and> (set bits \<subseteq> {CHR ''0'', CHR ''1''} \<and> length bits < 2 ^ 32 \<longrightarrow>
        readEncodedData junk (packBits bits) (of_nat (length bits)) = bits
        \<and> (\<forall>bytes. length bytes = length (packBits bits)
              \<and> (\<forall>i<length bits. bit (bytes ! (i div 8)) (i mod 8)
                                   = bit (packBits bits ! (i div 8)) (i mod 8))
              \<longrightarrow> readEncodedData junk bytes (of_nat (length bits)) = bits))"
proof -
  have placed: "\<forall>i<length bits. bit (packBits bits ! (i div 8)) (i mod 8) = (bits ! i = CHR ''1'')"
    by (simp add: packBits_nth)
  have "readEncodedData junk bytes (of_nat (length bits)) = bits"
    if alphabet: "set bits \<subseteq> {CHR ''0'', CHR ''1''}" and small: "length bits < 2 ^ 32"
      and len: "length bytes = length (packBits bits)"
      and agree: "\<forall>i<length bits. bit (bytes ! (i div 8)) (i mod 8)
                            = bit (packBits bits ! (i div 8)) (i mod 8)" for bytes
  proof (rule unpack_agreeing_bytes [OF alphabet])
    show "length bits = unat (of_nat (length bits) :: 32 word)"
      using small by (simp add: unat_of_nat)
    show "length bytes = (length bits + 7) div 8"
      using len by (simp add: length_packBits)
    show "\<forall>i<length bits. bit (bytes ! (i div 8)) (i mod 8) = (bits ! i = CHR ''1'')"
      using agree placed by simp
  qed
  then show ?thesis
    using placed by (simp add: length_packBits)
qed

theorem pack_unpack_bits_witness:
  "length ''0001111101'' < (2 :: nat) ^ 32
   \<and> packBits ''0001111101'' = [248, 2]
   \<and> readEncodedData (\<lambda>i. 255) (packBits ''0001111101'') 10 = ''0001111101''
   \<and> readEncodedData (\<lambda>i. 255) [248, 254] 10 = ''0001111101''"
proof -
  have a: "set ''0001111101'' \<subseteq> {CHR ''0'', CHR ''1''}" by simp
  have l: "length ''0001111101'' < (2 :: nat) ^ 32" by simp
  have n: "(of_nat (length ''0001111101'') :: 32 word) = 10" by simp
  have p: "packBits ''0001111101'' = [248, 2]" by code_simp
  have "bit ([248, 254 :: 8 word] ! (i div 8)) (i mod 8)
          = bit ([248, 2 :: 8 word] ! (i div 8)) (i mod 8)" if "i < 10" for i :: nat
  proof -
    from that have "i = 0 \<or> i = 1 \<or> i = 2 \<or> i = 3 \<or> i = 4 \<or> i = 5 \<or> i = 6 \<or> i = 7
        \<or> i = 8 \<or> i = 9"
      by arith
    then show ?thesis
      by (elim disjE) simp_all
  qed
  then have q: "\<forall>i<length ''0001111101''. bit ([248, 254 :: 8 word] ! (i div 8)) (i mod 8)
             = bit (packBits ''0001111101'' ! (i div 8)) (i mod 8)"
    unfolding p by simp
  have r: "length [248, 254 :: 8 word] = length (packBits ''0001111101'')"
    unfolding p by simp
  from pack_unpack_bits [of "''0001111101''" "\<lambda>i. 255"] a l q r
  have "readEncodedData (\<lambda>i. 255) (packBits ''0001111101'') (of_nat (length ''0001111101'')) = ''0001111101''
      \<and> readEncodedData (\<lambda>i. 255) [248, 254] (of_nat (length ''0001111101'')) = ''0001111101''"
    by blast
  then show ?thesis
    unfolding n using l p by simp
qed

section \<open>Decoding\<close>

text \<open>
  C8, as amended. For every code table that is a map whose codes are non-empty strings of
  \<open>0\<close> and \<open>1\<close>, none a prefix of another, and every sequence \<open>ks\<close> of samples of the table:
  the walk over the concatenated codewords, on the tree rebuilt from the table, never
  meets a null child (the result is not an error), emits exactly \<open>ks\<close>, and ends at the
  root.
\<close>

theorem decode_concat_codewords:
  assumes "distinct (map fst tbl)"
    and "\<forall>(s, c) \<in> set tbl. c \<noteq> [] \<and> bitstring c"
    and "prefix_free tbl"
    and "set ks \<subseteq> fst ` set tbl"
  shows "decode_loop (codewords tbl ks)
           (dec_buildHuffmanTree tbl) (dec_buildHuffmanTree tbl) []
         = Inr (ks, dec_buildHuffmanTree tbl)"
proof -
  have "decodable tbl"
    using assms(1-3) by (simp add: decodable_def)
  then show ?thesis
    using decode_codewords [OF _ assms(4), of "[]" "[]"] by simp
qed

theorem decode_concat_codewords_witness:
  "prefix_free [(- 5, ''10''), (0, ''0''), (1, ''11'')]
   \<and> codewords [(- 5, ''10''), (0, ''0''), (1, ''11'')] [0, 1, - 5, 0] = ''011100''
   \<and> decode_loop ''011100''
         (dec_buildHuffmanTree [(- 5, ''10''), (0, ''0''), (1, ''11'')])
         (dec_buildHuffmanTree [(- 5, ''10''), (0, ''0''), (1, ''11'')]) []
       = Inr ([0, 1, - 5, 0], dec_buildHuffmanTree [(- 5, ''10''), (0, ''0''), (1, ''11'')])"
proof -
  let ?tbl = "[(- 5, ''10''), (0, ''0''), (1, ''11'')] :: string smap"
  have h1: "distinct (map fst ?tbl)" by simp
  have h2: "\<forall>(s, c) \<in> set ?tbl. c \<noteq> [] \<and> bitstring c" by simp
  have h3: "prefix_free ?tbl" by (simp add: prefix_free_def)
  have h4: "set [0, 1, - 5, 0] \<subseteq> fst ` set ?tbl" by simp
  have c: "codewords ?tbl [0, 1, - 5, 0] = ''011100''" by simp
  from decode_concat_codewords [OF h1 h2 h3 h4] h3 c show ?thesis by simp
qed

text \<open>
  C8 as stated fails for a table with an empty code: the table \<open>5 \<mapsto> \<close>(empty string) is
  prefix-free, the empty bit string is the codeword of 5, and the walk emits nothing.
\<close>

theorem empty_codeword_is_not_decoded:
  "distinct (map fst [(5 :: sample, [])])
   \<and> prefix_free [(5, [])]
   \<and> codewords [(5, [])] [5] = []
   \<and> decode_loop (codewords [(5, [])] [5])
         (dec_buildHuffmanTree [(5, [])]) (dec_buildHuffmanTree [(5, [])]) []
       = Inr ([], dec_buildHuffmanTree [(5, [])])
   \<and> decode_loop (codewords [(5, [])] [5])
         (dec_buildHuffmanTree [(5, [])]) (dec_buildHuffmanTree [(5, [])]) []
       \<noteq> Inr ([5], dec_buildHuffmanTree [(5, [])])"
  by (simp add: prefix_free_def)

text \<open>
  C6 as stated fails: with the table \<open>-5 \<mapsto> 10, 0 \<mapsto> 0, 1 \<mapsto> 11\<close> and the two bits \<open>01\<close>
  the walk ends at the inner node reached by \<open>1\<close>, not at the root, and the decoder
  returns \<open>[0]\<close> with no failure, also as a whole run of \<open>main\<close>.
\<close>

theorem off_boundary_stream_is_accepted:
  "decode_loop ''01''
       (dec_buildHuffmanTree [(- 5, ''10''), (0, ''0''), (1, ''11'')])
       (dec_buildHuffmanTree [(- 5, ''10''), (0, ''0''), (1, ''11'')]) []
     = Inr ([0], DNode (- 1) (DNode (- 5) DNull DNull) (DNode 1 DNull DNull))
   \<and> DNode (- 1) (DNode (- 5) DNull DNull) (DNode 1 DNull DNull)
       \<noteq> dec_buildHuffmanTree [(- 5, ''10''), (0, ''0''), (1, ''11'')]
   \<and> decodeAudioData ''01'' (dec_buildHuffmanTree [(- 5, ''10''), (0, ''0''), (1, ''11'')])
       = Inr [0]
   \<and> dec_main zero_junk
        \<lparr>file_header = [], file_huffmanCodeCount = 3,
         file_codes = [(- 5, ''10''), (0, ''0''), (1, ''11'')],
         file_encodedDataSize = 2, file_data = [2]\<rparr> = Inr ([], [0])"
  by code_simp

text \<open>
  C6, as amended. The decoder has no check of the end state. When the declared bits are
  codewords followed by a non-empty proper prefix \<open>p\<close> of a codeword, the walk ends at the
  node of \<open>p\<close>, which is not the root, and \<open>decodeAudioData\<close> returns normally with exactly
  the samples of the complete codewords: the trailing bits are dropped and nothing is
  reported.
\<close>

theorem partial_codeword_is_dropped:
  assumes "distinct (map fst tbl)"
    and "\<forall>(s, c) \<in> set tbl. c \<noteq> [] \<and> bitstring c"
    and "prefix_free tbl"
    and "set ks \<subseteq> fst ` set tbl"
    and "(s, c) \<in> set tbl" and "strict_prefix p c" and "p \<noteq> []"
  shows "decode_loop (codewords tbl ks @ p)
           (dec_buildHuffmanTree tbl) (dec_buildHuffmanTree tbl) []
         = Inr (ks, descend (dec_buildHuffmanTree tbl) p)
       \<and> descend (dec_buildHuffmanTree tbl) p \<noteq> dec_buildHuffmanTree tbl
       \<and> decodeAudioData (codewords tbl ks @ p)
           (dec_buildHuffmanTree tbl) = Inr ks"
proof -
  let ?T = "dec_buildHuffmanTree tbl"
  have d: "decodable tbl"
    using assms(1-3) by (simp add: decodable_def)
  have inner: "\<forall>q. prefix q p \<longrightarrow> q \<noteq> [] \<longrightarrow> descend ?T q \<noteq> DNull \<and> \<not> is_leaf (descend ?T q)"
  proof (intro allI impI)
    fix q assume "prefix q p" "q \<noteq> []"
    from \<open>prefix q p\<close> assms(6) have "strict_prefix q c"
      by (rule prefix_order.le_less_trans)
    then show "descend ?T q \<noteq> DNull \<and> \<not> is_leaf (descend ?T q)"
      by (rule table_inner [OF d assms(5)])
  qed
  have root: "?T \<noteq> DNull"
    by (simp add: dec_buildHuffmanTree_insert_all)
  have "decode_loop (codewords tbl ks @ p) ?T ?T []
        = decode_loop p ?T ?T ([] @ ks)"
    using d assms(4) by (rule decode_codewords)
  also have "\<dots> = Inr ([] @ ks, descend ?T p)"
    using root inner by (rule walk_partial)
  finally have walk: "decode_loop (codewords tbl ks @ p) ?T ?T []
        = Inr (ks, descend ?T p)" by simp
  have "descend ?T p \<noteq> DNull"
    using table_inner [OF d assms(5,6)] by simp
  then have "size (descend ?T p) < size ?T"
    using assms(7) by (intro size_descend)
  then have "descend ?T p \<noteq> ?T" by auto
  then show ?thesis
    using walk by (simp add: decodeAudioData_def)
qed

theorem partial_codeword_is_dropped_witness:
  "strict_prefix ''1'' ''11''
   \<and> codewords [(- 5, ''10''), (0, ''0''), (1, ''11'')] [0, 1] @ ''1'' = ''0111''
   \<and> decode_loop ''0111''
         (dec_buildHuffmanTree [(- 5, ''10''), (0, ''0''), (1, ''11'')])
         (dec_buildHuffmanTree [(- 5, ''10''), (0, ''0''), (1, ''11'')]) []
       = Inr ([0, 1], descend (dec_buildHuffmanTree [(- 5, ''10''), (0, ''0''), (1, ''11'')]) ''1'')
   \<and> descend (dec_buildHuffmanTree [(- 5, ''10''), (0, ''0''), (1, ''11'')]) ''1''
       \<noteq> dec_buildHuffmanTree [(- 5, ''10''), (0, ''0''), (1, ''11'')]
   \<and> decodeAudioData ''0111'' (dec_buildHuffmanTree [(- 5, ''10''), (0, ''0''), (1, ''11'')])
       = Inr [0, 1]"
proof -
  let ?tbl = "[(- 5, ''10''), (0, ''0''), (1, ''11'')] :: string smap"
  have h1: "distinct (map fst ?tbl)" by simp
  have h2: "\<forall>(s, c) \<in> set ?tbl. c \<noteq> [] \<and> bitstring c" by simp
  have h3: "prefix_free ?tbl" by (simp add: prefix_free_def)
  have h4: "set [0, 1] \<subseteq> fst ` set ?tbl" by simp
  have h5: "(1, ''11'') \<in> set ?tbl" by simp
  have h6: "strict_prefix ''1'' ''11''" by (simp add: strict_prefix_def)
  have h7: "''1'' \<noteq> []" by simp
  have c: "codewords ?tbl [0, 1] @ ''1'' = ''0111''" by simp
  from partial_codeword_is_dropped [OF h1 h2 h3 h4 h5 h6 h7] h6 c show ?thesis by simp
qed

section \<open>Determinism\<close>

text \<open>
  C9. Two runs of the encoder on the same input, whose nodes lie at whatever addresses
  their allocators hand out, both return, and they return the same result: the same
  failure, or a file with the same code table, the same counts and the same packed bytes.
  The priority queue is the vector of addresses with the heap operations of libstdc++, so
  the tie-break is the same in both runs, and its comparison reads the frequencies of the
  cells, never the addresses. The packed bytes have no undefined bit
  (\<open>packBits_padding_zero\<close>).

  In the run shown after the theorem the three values have the same frequency, so the
  tree depends on the tie-break alone, and the roots of the two runs lie at the
  addresses 16 and 4096.
\<close>

theorem encoding_is_deterministic:
  assumes "fresh alloc1" and "fresh alloc2"
  shows "\<exists>result. ptr_enc_main alloc1 hdr audioData = Some result
           \<and> ptr_enc_main alloc2 hdr audioData = Some result"
  using ptr_enc_main_refines [OF assms(1)] ptr_enc_main_refines [OF assms(2)] by simp

theorem encoding_is_deterministic_witness:
  "fresh bump_allocator \<and> fresh sparse_allocator
   \<and> map_sum id snd (ptr_buildHuffmanTree bump_allocator (calculateFrequencies [0, 1, 2]))
       = Inr 16
   \<and> map_sum id snd (ptr_buildHuffmanTree sparse_allocator (calculateFrequencies [0, 1, 2]))
       = Inr 4096
   \<and> ptr_enc_main bump_allocator [] [0, 1, 2] =
       Some (Inr \<lparr>file_header = [], file_huffmanCodeCount = 3,
                 file_codes = [(0, ''10''), (1, ''11''), (2, ''0'')],
                 file_encodedDataSize = 5, file_data = [13]\<rparr>)
   \<and> ptr_enc_main sparse_allocator [] [0, 1, 2] =
       Some (Inr \<lparr>file_header = [], file_huffmanCodeCount = 3,
                 file_codes = [(0, ''10''), (1, ''11''), (2, ''0'')],
                 file_encodedDataSize = 5, file_data = [13]\<rparr>)"
proof -
  have r1: "map_sum id snd (ptr_buildHuffmanTree bump_allocator (calculateFrequencies [0, 1, 2]))
       = Inr 16"
    by code_simp
  have r2: "map_sum id snd (ptr_buildHuffmanTree sparse_allocator (calculateFrequencies [0, 1, 2]))
       = Inr 4096"
    by code_simp
  have a: "ptr_enc_main bump_allocator [] [0, 1, 2] =
       Some (Inr \<lparr>file_header = [], file_huffmanCodeCount = 3,
                 file_codes = [(0, ''10''), (1, ''11''), (2, ''0'')],
                 file_encodedDataSize = 5, file_data = [13]\<rparr>)"
    by code_simp
  from encoding_is_deterministic [OF fresh_bump_allocator fresh_sparse_allocator,
      of "[]" "[0, 1, 2]"] a
  have b: "ptr_enc_main sparse_allocator [] [0, 1, 2] =
       Some (Inr \<lparr>file_header = [], file_huffmanCodeCount = 3,
                 file_codes = [(0, ''10''), (1, ''11''), (2, ''0'')],
                 file_encodedDataSize = 5, file_data = [13]\<rparr>)"
    by auto
  from fresh_bump_allocator fresh_sparse_allocator r1 r2 a b show ?thesis
    by (intro conjI)
qed

end
